theory Spec2Isabelle
  imports Main "HOL-Library.Char_ord" "HOL-Library.List_Lexorder"
begin

section \<open>Python objects used as keys\<close>

text \<open>
  A key is a reference to a Python object. Three things about it are observable by the
  multimap: which object it is (\<open>is\<close>), what \<open>__hash__\<close> returns and what \<open>__eq__\<close>
  compares. A value of type \<open>'a pyobj\<close> stands for the reference: HOL equality on it is
  physical identity, \<open>hashv\<close> is the result of \<open>hash()\<close> and \<open>content\<close> is what \<open>==\<close>
  compares. \<open>ident\<close> tells apart two objects of equal hash and content. Python asks
  hashable objects that compare equal to have equal hashes; the type does not enforce it,
  so a theorem that needs it says so.
\<close>

datatype 'a pyobj = PyObj (ident: nat) (hashv: int) (content: 'a)

definition PyObject_Hash :: "'a pyobj \<Rightarrow> int" where
  "PyObject_Hash ob = hashv ob"

definition py_is :: "'a pyobj \<Rightarrow> 'a pyobj \<Rightarrow> bool" where
  "py_is a b = (a = b)"

definition py_eq :: "'a pyobj \<Rightarrow> 'a pyobj \<Rightarrow> bool" where
  "py_eq a b = (content a = content b)"

text \<open>pyObjectPtrHash.h: the hash functor and the equality functor of the key index.\<close>

definition PyObjectPtrHash :: "'a pyobj \<Rightarrow> int" where
  "PyObjectPtrHash ob = PyObject_Hash ob"

definition PyObjectPtrHashEqual :: "'a pyobj \<Rightarrow> 'a pyobj \<Rightarrow> bool" where
  "PyObjectPtrHashEqual lhs rhs = (PyObjectPtrHash lhs = PyObjectPtrHash rhs)"

datatype error = KeyError | RuntimeError | AssertionError

section \<open>The two containers\<close>

text \<open>
  \<open>_map\<close> is a C++ \<open>unordered_map\<close> from key pointers to deques of (slot id, value),
  with \<open>PyObjectPtrHashEqual\<close> as its key equality. It is modelled as the list of its
  entries; the order of the list is never observed. \<open>size_t\<close> slot ids are natural numbers:
  the counter only wraps after \<open>2 ^ 64\<close> calls of \<open>add\<close>.
\<close>

type_synonym 'v deque = "(nat \<times> 'v) list"
type_synonym ('a, 'v) umap = "('a pyobj \<times> 'v deque) list"

text \<open>\<open>find\<close>: the entry the iterator points to, \<open>None\<close> for \<open>end()\<close>.\<close>

fun umap_find :: "('a, 'v) umap \<Rightarrow> 'a pyobj \<Rightarrow> ('a pyobj \<times> 'v deque) option" where
  "umap_find [] key = None"
| "umap_find (e # m) key =
     (if PyObjectPtrHashEqual (fst e) key then Some e else umap_find m key)"

text \<open>Writing through a pointer to the deque that \<open>find\<close> or \<open>operator[]\<close> returned.\<close>

fun umap_assign :: "('a, 'v) umap \<Rightarrow> 'a pyobj \<Rightarrow> 'v deque \<Rightarrow> ('a, 'v) umap" where
  "umap_assign [] key d = []"
| "umap_assign (e # m) key d =
     (if PyObjectPtrHashEqual (fst e) key then (fst e, d) # m else e # umap_assign m key d)"

text \<open>\<open>operator[]\<close>: the entry's deque, and the map with an empty entry created if needed.\<close>

definition umap_subscript :: "('a, 'v) umap \<Rightarrow> 'a pyobj \<Rightarrow> ('a, 'v) umap \<times> 'v deque" where
  "umap_subscript m key =
     (case umap_find m key of
        Some e \<Rightarrow> (m, snd e)
      | None \<Rightarrow> (m @ [(key, [])], []))"

definition umap_erase :: "('a, 'v) umap \<Rightarrow> 'a pyobj \<Rightarrow> ('a, 'v) umap" where
  "umap_erase m key = filter (\<lambda>e. \<not> PyObjectPtrHashEqual (fst e) key) m"

text \<open>
  \<open>_items\<close> is a Python \<open>OrderedDict\<close> from slot ids to (key, value) tuples: a list of
  entries in iteration order. Assigning to a slot that exists keeps its position, a new
  slot goes to the end; reading or deleting a missing slot raises \<open>KeyError\<close>.
\<close>

type_synonym 'e odict = "(nat \<times> 'e) list"

fun od_getitem :: "'e odict \<Rightarrow> nat \<Rightarrow> 'e option" where
  "od_getitem [] i = None"
| "od_getitem ((j, e) # od) i = (if j = i then Some e else od_getitem od i)"

fun od_setitem :: "'e odict \<Rightarrow> nat \<Rightarrow> 'e \<Rightarrow> 'e odict" where
  "od_setitem [] i e = [(i, e)]"
| "od_setitem ((j, e0) # od) i e =
     (if j = i then (j, e) # od else (j, e0) # od_setitem od i e)"

definition od_remove :: "'e odict \<Rightarrow> nat \<Rightarrow> 'e odict" where
  "od_remove od i = filter (\<lambda>p. fst p \<noteq> i) od"

definition od_delitem :: "'e odict \<Rightarrow> nat \<Rightarrow> error + 'e odict" where
  "od_delitem od i =
     (case od_getitem od i of
        None \<Rightarrow> Inl KeyError
      | Some e \<Rightarrow> Inr (od_remove od i))"

definition od_values :: "'e odict \<Rightarrow> 'e list" where
  "od_values od = map snd od"

section \<open>The ordered multimap\<close>

record ('a, 'v) omd =
  u_items :: "('a pyobj \<times> 'v) odict"
  u_map :: "('a, 'v) umap"
  u_index :: nat

text \<open>\<open>__cinit__\<close> and \<open>__init__\<close> without an iterable.\<close>

definition empty_omd :: "('a, 'v) omd" where
  "empty_omd = \<lparr>u_items = [], u_map = [], u_index = 0\<rparr>"

definition clear :: "('a, 'v) omd \<Rightarrow> ('a, 'v) omd" where
  "clear s = s\<lparr>u_map := [], u_items := [], u_index := 0\<rparr>"

text \<open>\<open>getAllOrNull\<close>: the key's deque, or \<open>NULL\<close>; the \<open>assert\<close> raises on an empty deque.\<close>

definition getAllOrNull :: "('a, 'v) omd \<Rightarrow> 'a pyobj \<Rightarrow> error + 'v deque option" where
  "getAllOrNull s key =
     (case umap_find (u_map s) key of
        Some it \<Rightarrow> (if snd it = [] then Inl AssertionError else Inr (Some (snd it)))
      | None \<Rightarrow> Inr None)"

definition contains :: "('a, 'v) omd \<Rightarrow> 'a pyobj \<Rightarrow> bool" where
  "contains s key = (umap_find (u_map s) key \<noteq> None)"

text \<open>
  The readers. A default that was not passed is \<open>None\<close> of the option type; \<open>get\<close>,
  \<open>getFirst\<close> and \<open>getLast\<close> then return Python's \<open>None\<close>, again \<open>None\<close> here.
\<close>

definition get :: "('a, 'v) omd \<Rightarrow> 'a pyobj \<Rightarrow> 'v option \<Rightarrow> error + 'v option" where
  "get s key dflt =
     (case getAllOrNull s key of
        Inl e \<Rightarrow> Inl e
      | Inr (Some vals) \<Rightarrow> Inr (Some (snd (hd vals)))
      | Inr None \<Rightarrow> Inr dflt)"

definition getFirst :: "('a, 'v) omd \<Rightarrow> 'a pyobj \<Rightarrow> 'v option \<Rightarrow> error + 'v option" where
  "getFirst s key dflt =
     (case getAllOrNull s key of
        Inl e \<Rightarrow> Inl e
      | Inr (Some vals) \<Rightarrow> Inr (Some (snd (hd vals)))
      | Inr None \<Rightarrow> Inr dflt)"

definition getLast :: "('a, 'v) omd \<Rightarrow> 'a pyobj \<Rightarrow> 'v option \<Rightarrow> error + 'v option" where
  "getLast s key dflt =
     (case getAllOrNull s key of
        Inl e \<Rightarrow> Inl e
      | Inr (Some vals) \<Rightarrow> Inr (Some (snd (last vals)))
      | Inr None \<Rightarrow> Inr dflt)"

definition getall :: "('a, 'v) omd \<Rightarrow> 'a pyobj \<Rightarrow> 'v list option \<Rightarrow> error + 'v list" where
  "getall s key dflt =
     (case getAllOrNull s key of
        Inl e \<Rightarrow> Inl e
      | Inr (Some vals) \<Rightarrow> Inr (map snd vals)
      | Inr None \<Rightarrow> (case dflt of None \<Rightarrow> Inr [] | Some d \<Rightarrow> Inr d))"

definition getitem :: "('a, 'v) omd \<Rightarrow> 'a pyobj \<Rightarrow> error + 'v" where
  "getitem s key =
     (case getAllOrNull s key of
        Inl e \<Rightarrow> Inl e
      | Inr (Some vals) \<Rightarrow> Inr (snd (hd vals))
      | Inr None \<Rightarrow> Inl KeyError)"

text \<open>
  The mutations. An operation returns its outcome, \<open>Inl\<close> for an exception, together
  with the map as it is when the operation returns or raises: a caller that catches the
  exception goes on with that map. An exception ends the operation that raises it and the
  loop or operation that called it, in \<open>cpdef void\<close> methods as everywhere else.

  \<open>add\<close>. The deque reached through \<open>values\<close> is the one found under the key that was
  passed in, also after \<open>key\<close> has been rebound to the stored key object.
\<close>

definition add :: "('a, 'v) omd \<Rightarrow> 'a pyobj \<Rightarrow> 'v \<Rightarrow> (error + unit) \<times> ('a, 'v) omd" where
  "add s key value =
     (let index = u_index s;
          (m1, vals) = umap_subscript (u_map s) key;
          s1 = s\<lparr>u_index := u_index s + 1, u_map := m1\<rparr>
      in case (if vals \<noteq> [] then od_getitem (u_items s1) (fst (hd vals))
               else Some (key, value)) of
           None \<Rightarrow> (Inl KeyError, s1)
         | Some item \<Rightarrow>
             (Inr (),
              s1\<lparr>u_items := od_setitem (u_items s1) index (fst item, value),
                 u_map := umap_assign m1 key (vals @ [(index, value)])\<rparr>))"

fun addAll :: "('a, 'v) omd \<Rightarrow> 'a pyobj \<Rightarrow> 'v list \<Rightarrow> (error + unit) \<times> ('a, 'v) omd" where
  "addAll s key [] = (Inr (), s)"
| "addAll s key (value # valuelist) =
     (case add s key value of
        (Inl e, s') \<Rightarrow> (Inl e, s')
      | (Inr u, s') \<Rightarrow> addAll s' key valuelist)"

fun extend :: "('a, 'v) omd \<Rightarrow> ('a pyobj \<times> 'v) list \<Rightarrow> (error + unit) \<times> ('a, 'v) omd" where
  "extend s [] = (Inr (), s)"
| "extend s ((key, value) # keyValuelist) =
     (case add s key value of
        (Inl e, s') \<Rightarrow> (Inl e, s')
      | (Inr u, s') \<Rightarrow> extend s' keyValuelist)"

text \<open>\<open>load\<close>: \<open>clear\<close>, then \<open>add\<close> for every pair of the iterable.\<close>

fun load_loop :: "('a, 'v) omd \<Rightarrow> ('a pyobj \<times> 'v) list \<Rightarrow> (error + unit) \<times> ('a, 'v) omd" where
  "load_loop s [] = (Inr (), s)"
| "load_loop s ((k, v) # iterable) =
     (case add s k v of
        (Inl e, s') \<Rightarrow> (Inl e, s')
      | (Inr u, s') \<Rightarrow> load_loop s' iterable)"

definition load :: "('a, 'v) omd \<Rightarrow> ('a pyobj \<times> 'v) list \<Rightarrow> (error + unit) \<times> ('a, 'v) omd" where
  "load s iterable = load_loop (clear s) iterable"

definition setdefault :: "('a, 'v) omd \<Rightarrow> 'a pyobj \<Rightarrow> 'v \<Rightarrow> (error + 'v) \<times> ('a, 'v) omd" where
  "setdefault s key dflt =
     (case getAllOrNull s key of
        Inl e \<Rightarrow> (Inl e, s)
      | Inr (Some vals) \<Rightarrow> (Inr (snd (hd vals)), s)
      | Inr None \<Rightarrow>
          (case add s key dflt of
             (Inl e, s') \<Rightarrow> (Inl e, s')
           | (Inr u, s') \<Rightarrow> (Inr dflt, s')))"

definition setdefaultAll ::
  "('a, 'v) omd \<Rightarrow> 'a pyobj \<Rightarrow> 'v list \<Rightarrow> (error + 'v list) \<times> ('a, 'v) omd" where
  "setdefaultAll s key defaultlist =
     (case getAllOrNull s key of
        Inl e \<Rightarrow> (Inl e, s)
      | Inr (Some vals) \<Rightarrow> (getall s key None, s)
      | Inr None \<Rightarrow>
          (case addAll s key defaultlist of
             (Inl e, s') \<Rightarrow> (Inl e, s')
           | (Inr u, s') \<Rightarrow> (Inr defaultlist, s')))"

text \<open>The loop of \<open>_tryDeleteAll\<close> over the key's deque.\<close>

fun delete_slots :: "'e odict \<Rightarrow> 'v deque \<Rightarrow> (error + unit) \<times> 'e odict" where
  "delete_slots its [] = (Inr (), its)"
| "delete_slots its (val # vals) =
     (case od_delitem its (fst val) of
        Inl e \<Rightarrow> (Inl e, its)
      | Inr its' \<Rightarrow> delete_slots its' vals)"

definition tryDeleteAll :: "('a, 'v) omd \<Rightarrow> 'a pyobj \<Rightarrow> (error + bool) \<times> ('a, 'v) omd" where
  "tryDeleteAll s key =
     (case getAllOrNull s key of
        Inl e \<Rightarrow> (Inl e, s)
      | Inr None \<Rightarrow> (Inr False, s)
      | Inr (Some vals) \<Rightarrow>
          (case delete_slots (u_items s) vals of
             (Inl e, its) \<Rightarrow> (Inl e, s\<lparr>u_items := its\<rparr>)
           | (Inr u, its) \<Rightarrow>
               (Inr True, s\<lparr>u_items := its, u_map := umap_erase (u_map s) key\<rparr>)))"

definition deleteAll :: "('a, 'v) omd \<Rightarrow> 'a pyobj \<Rightarrow> (error + unit) \<times> ('a, 'v) omd" where
  "deleteAll s key =
     (case tryDeleteAll s key of
        (Inl e, s') \<Rightarrow> (Inl e, s')
      | (Inr found, s') \<Rightarrow> (if \<not> found then (Inl KeyError, s') else (Inr (), s')))"

definition setAll :: "('a, 'v) omd \<Rightarrow> 'a pyobj \<Rightarrow> 'v list \<Rightarrow> (error + unit) \<times> ('a, 'v) omd" where
  "setAll s key valueList =
     (case tryDeleteAll s key of
        (Inl e, s') \<Rightarrow> (Inl e, s')
      | (Inr found, s') \<Rightarrow> addAll s' key valueList)"

text \<open>
  \<open>popAll\<close>. Its parameter is declared \<open>default: list = None\<close>: a call that passes no
  default binds Python's \<open>None\<close>, and so does a call that passes \<open>None\<close>.
\<close>

datatype 'v list_or_none = PyNone | PyList "'v list"

fun popAll_loop :: "'e odict \<Rightarrow> 'v deque \<Rightarrow> 'v list \<Rightarrow> (error + 'v list) \<times> 'e odict" where
  "popAll_loop its [] result = (Inr result, its)"
| "popAll_loop its (val # vals) result =
     (case od_delitem its (fst val) of
        Inl e \<Rightarrow> (Inl e, its)
      | Inr its' \<Rightarrow> popAll_loop its' vals (result @ [snd val]))"

definition popAll ::
  "('a, 'v) omd \<Rightarrow> 'a pyobj \<Rightarrow> 'v list_or_none option \<Rightarrow>
     (error + 'v list_or_none) \<times> ('a, 'v) omd" where
  "popAll s key passed =
     (let dflt = (case passed of None \<Rightarrow> PyNone | Some d \<Rightarrow> d)
      in case getAllOrNull s key of
           Inl e \<Rightarrow> (Inl e, s)
         | Inr (Some vals) \<Rightarrow>
             (case popAll_loop (u_items s) vals [] of
                (Inl e, its) \<Rightarrow> (Inl e, s\<lparr>u_items := its\<rparr>)
              | (Inr result, its) \<Rightarrow>
                  (Inr (PyList result),
                   s\<lparr>u_items := its, u_map := umap_erase (u_map s) key\<rparr>))
         | Inr None \<Rightarrow>
             (if dflt \<noteq> PyNone then (Inr dflt, s) else (Inl KeyError, s)))"

text \<open>The single pops. \<open>_absent\<close>, the marker of a default that was not passed, is \<open>None\<close>.\<close>

definition popFirstItem ::
  "('a, 'v) omd \<Rightarrow> ('a pyobj \<times> 'v) option \<Rightarrow> (error + 'a pyobj \<times> 'v) \<times> ('a, 'v) omd" where
  "popFirstItem s dflt =
     (case u_items s of
        [] \<Rightarrow> (case dflt of Some d \<Rightarrow> (Inr d, s) | None \<Rightarrow> (Inl KeyError, s))
      | slot # rest \<Rightarrow>
          (let item = snd slot; s1 = s\<lparr>u_items := rest\<rparr>
           in case getAllOrNull s1 (fst item) of
                Inl e \<Rightarrow> (Inl e, s1)
              | Inr None \<Rightarrow> (Inl RuntimeError, s1)
              | Inr (Some vals) \<Rightarrow>
                  (let m1 = umap_assign (u_map s1) (fst item) (tl vals)
                   in (Inr item,
                       s1\<lparr>u_map := (if tl vals = [] then umap_erase m1 (fst item) else m1)\<rparr>))))"

definition popLastItem ::
  "('a, 'v) omd \<Rightarrow> ('a pyobj \<times> 'v) option \<Rightarrow> (error + 'a pyobj \<times> 'v) \<times> ('a, 'v) omd" where
  "popLastItem s dflt =
     (if u_items s = []
      then (case dflt of Some d \<Rightarrow> (Inr d, s) | None \<Rightarrow> (Inl KeyError, s))
      else
        (let item = snd (last (u_items s)); s1 = s\<lparr>u_items := butlast (u_items s)\<rparr>
         in case getAllOrNull s1 (fst item) of
              Inl e \<Rightarrow> (Inl e, s1)
            | Inr None \<Rightarrow> (Inl RuntimeError, s1)
            | Inr (Some vals) \<Rightarrow>
                (let m1 = umap_assign (u_map s1) (fst item) (butlast vals)
                 in (Inr item,
                     s1\<lparr>u_map := (if butlast vals = [] then umap_erase m1 (fst item) else m1)\<rparr>))))"

definition popFirst ::
  "('a, 'v) omd \<Rightarrow> 'a pyobj \<Rightarrow> 'v option \<Rightarrow> (error + 'v) \<times> ('a, 'v) omd" where
  "popFirst s key dflt =
     (case getAllOrNull s key of
        Inl e \<Rightarrow> (Inl e, s)
      | Inr (Some vals) \<Rightarrow>
          (let popped = hd vals;
               s1 = s\<lparr>u_map := umap_assign (u_map s) key (tl vals)\<rparr>
           in case od_delitem (u_items s1) (fst popped) of
                Inl e \<Rightarrow> (Inl e, s1)
              | Inr its \<Rightarrow>
                  (Inr (snd popped),
                   s1\<lparr>u_items := its,
                      u_map := (if tl vals = [] then umap_erase (u_map s1) key else u_map s1)\<rparr>))
      | Inr None \<Rightarrow>
          (case dflt of Some d \<Rightarrow> (Inr d, s) | None \<Rightarrow> (Inl KeyError, s)))"

definition popLast ::
  "('a, 'v) omd \<Rightarrow> 'a pyobj \<Rightarrow> 'v option \<Rightarrow> (error + 'v) \<times> ('a, 'v) omd" where
  "popLast s key dflt =
     (case getAllOrNull s key of
        Inl e \<Rightarrow> (Inl e, s)
      | Inr (Some vals) \<Rightarrow>
          (let popped = last vals;
               s1 = s\<lparr>u_map := umap_assign (u_map s) key (butlast vals)\<rparr>
           in case od_delitem (u_items s1) (fst popped) of
                Inl e \<Rightarrow> (Inl e, s1)
              | Inr its \<Rightarrow>
                  (Inr (snd popped),
                   s1\<lparr>u_items := its,
                      u_map := (if butlast vals = [] then umap_erase (u_map s1) key
                                else u_map s1)\<rparr>))
      | Inr None \<Rightarrow>
          (case dflt of Some d \<Rightarrow> (Inr d, s) | None \<Rightarrow> (Inl KeyError, s)))"

definition pop :: "('a, 'v) omd \<Rightarrow> 'a pyobj \<Rightarrow> 'v option \<Rightarrow> (error + 'v) \<times> ('a, 'v) omd" where
  "pop s key dflt = popLast s key dflt"

text \<open>The bracket operators: \<open>m[key] = value\<close> and \<open>del m[key]\<close>.\<close>

definition setitem :: "('a, 'v) omd \<Rightarrow> 'a pyobj \<Rightarrow> 'v \<Rightarrow> (error + unit) \<times> ('a, 'v) omd" where
  "setitem s key value = setAll s key [value]"

definition delitem :: "('a, 'v) omd \<Rightarrow> 'a pyobj \<Rightarrow> (error + unit) \<times> ('a, 'v) omd" where
  "delitem s key =
     (case pop s key None of
        (Inl e, s') \<Rightarrow> (Inl e, s')
      | (Inr v, s') \<Rightarrow> (Inr (), s'))"

text \<open>
  \<open>sort\<close>. \<open>sorted\<close> is stable, and with \<open>reverse=True\<close> it reverses, sorts and reverses
  again. The key function maps an item to what \<open>sorted\<close> compares; with \<open>key=None\<close> that is
  the item itself. Only \<open>_items\<close> is assigned.
\<close>

definition py_sorted :: "('e \<Rightarrow> 'o::linorder) \<Rightarrow> bool \<Rightarrow> 'e list \<Rightarrow> 'e list" where
  "py_sorted key reverse xs =
     (if reverse then rev (sort_key key (rev xs)) else sort_key key xs)"

definition sort_omd ::
  "('a pyobj \<times> 'v \<Rightarrow> 'o::linorder) \<Rightarrow> bool \<Rightarrow> ('a, 'v) omd \<Rightarrow> ('a, 'v) omd" where
  "sort_omd key reverse s =
     s\<lparr>u_items := enumerate 0 (py_sorted key reverse (od_values (u_items s)))\<rparr>"

section \<open>Views and equality\<close>

definition items :: "('a, 'v) omd \<Rightarrow> ('a pyobj \<times> 'v) list" where
  "items s = od_values (u_items s)"

definition items_reversed :: "('a, 'v) omd \<Rightarrow> ('a pyobj \<times> 'v) list" where
  "items_reversed s = rev (od_values (u_items s))"

definition keys :: "('a, 'v) omd \<Rightarrow> 'a pyobj list" where
  "keys s = map fst (od_values (u_items s))"

definition keys_reversed :: "('a, 'v) omd \<Rightarrow> 'a pyobj list" where
  "keys_reversed s = map fst (rev (od_values (u_items s)))"

definition values_view :: "('a, 'v) omd \<Rightarrow> 'v list" where
  "values_view s = map snd (od_values (u_items s))"

text \<open>
  A Python \<open>set\<close> of key objects, as the list of its members. An object is found in it
  when a member has its hash and is the same object or compares equal.
\<close>

definition set_match :: "'a pyobj \<Rightarrow> 'a pyobj \<Rightarrow> bool" where
  "set_match e k = (PyObject_Hash e = PyObject_Hash k \<and> (py_is e k \<or> py_eq e k))"

definition set_contains :: "'a pyobj list \<Rightarrow> 'a pyobj \<Rightarrow> bool" where
  "set_contains alreadySeen k = list_ex (\<lambda>e. set_match e k) alreadySeen"

definition set_add :: "'a pyobj list \<Rightarrow> 'a pyobj \<Rightarrow> 'a pyobj list" where
  "set_add alreadySeen k = (if set_contains alreadySeen k then alreadySeen else k # alreadySeen)"

text \<open>The generator of \<open>_UniqueKeysView\<close>, over the items in the order it is given them.\<close>

fun unique_gen :: "'a pyobj list \<Rightarrow> ('a pyobj \<times> 'v) list \<Rightarrow> 'a pyobj list" where
  "unique_gen alreadySeen [] = []"
| "unique_gen alreadySeen (kv # its) =
     (if \<not> set_contains alreadySeen (fst kv)
      then fst kv # unique_gen (set_add alreadySeen (fst kv)) its
      else unique_gen alreadySeen its)"

definition uniqueKeys :: "('a, 'v) omd \<Rightarrow> 'a pyobj list" where
  "uniqueKeys s = unique_gen [] (od_values (u_items s))"

definition uniqueKeys_reversed :: "('a, 'v) omd \<Rightarrow> 'a pyobj list" where
  "uniqueKeys_reversed s = unique_gen [] (rev (od_values (u_items s)))"

text \<open>
  \<open>__eq__\<close>: \<open>zip_longest\<close> over the two item views; tuples differ when their keys or
  their values do, and a view that ends first makes the maps differ.
\<close>

definition tuple_ne :: "'a pyobj \<times> 'v \<Rightarrow> 'a pyobj \<times> 'v \<Rightarrow> bool" where
  "tuple_ne i1 i2 =
     (\<not> ((py_is (fst i1) (fst i2) \<or> py_eq (fst i1) (fst i2)) \<and> snd i1 = snd i2))"

fun eq_loop :: "('a pyobj \<times> 'v) list \<Rightarrow> ('a pyobj \<times> 'v) list \<Rightarrow> bool" where
  "eq_loop [] [] = True"
| "eq_loop (i1 # xs) [] = False"
| "eq_loop [] (i2 # ys) = False"
| "eq_loop (i1 # xs) (i2 # ys) = (if tuple_ne i1 i2 then False else eq_loop xs ys)"

definition omd_eq :: "('a, 'v) omd \<Rightarrow> ('a, 'v) omd \<Rightarrow> bool" where
  "omd_eq self other = eq_loop (items self) (items other)"

section \<open>What the specification asks of a state\<close>

text \<open>
  The dual-index invariant: every (slot id, value) that the key index lists under a key is
  in the ledger under that slot id with that key object and that value, and the key of
  every ledger entry is found in the key index, with the entry's slot id and value in its
  deque.
\<close>

definition dual_index_inv :: "('a, 'v) omd \<Rightarrow> bool" where
  "dual_index_inv s =
     (list_all
        (\<lambda>e. list_all (\<lambda>pr. od_getitem (u_items s) (fst pr) = Some (fst e, snd pr)) (snd e))
        (u_map s) \<and>
      list_all
        (\<lambda>p. case umap_find (u_map s) (fst (snd p)) of
               None \<Rightarrow> False
             | Some e \<Rightarrow> (fst p, snd (snd p)) \<in> set (snd e))
        (u_items s))"

text \<open>Purge-on-empty: no key of the key index has an empty deque.\<close>

definition nonempty_inv :: "('a, 'v) omd \<Rightarrow> bool" where
  "nonempty_inv s = list_all (\<lambda>e. snd e \<noteq> []) (u_map s)"

text \<open>
  Slot ids are not reused, and the ledger is in slot order: the slot ids increase along
  the ledger and are below the counter.
\<close>

definition slots_fresh :: "('a, 'v) omd \<Rightarrow> bool" where
  "slots_fresh s =
     (sorted_wrt (<) (map fst (u_items s)) \<and> list_all (\<lambda>p. fst p < u_index s) (u_items s))"

text \<open>
  The ledger entries whose key the key index takes for \<open>key\<close>, in ledger order, and the
  deque they amount to.
\<close>

definition class_of :: "('a pyobj \<times> 'v) odict \<Rightarrow> 'a pyobj \<Rightarrow> ('a pyobj \<times> 'v) odict" where
  "class_of its key = filter (\<lambda>p. PyObjectPtrHashEqual (fst (snd p)) key) its"

definition slots_of :: "('a pyobj \<times> 'v) odict \<Rightarrow> 'a pyobj \<Rightarrow> 'v deque" where
  "slots_of its key = map (\<lambda>p. (fst p, snd (snd p))) (class_of its key)"

text \<open>
  The state of a map whose two containers agree: slot ids are unique and below the
  counter, the key index has one entry per hash, each entry's deque is non-empty and lists
  exactly the ledger entries of its key, in ledger order, all of them under the entry's own
  key object, and every ledger entry's key is in the key index.
\<close>

definition omd_inv :: "('a, 'v) omd \<Rightarrow> bool" where
  "omd_inv s =
     (distinct (map fst (u_items s)) \<and>
      list_all (\<lambda>p. fst p < u_index s) (u_items s) \<and>
      distinct (map (\<lambda>e. PyObjectPtrHash (fst e)) (u_map s)) \<and>
      list_all
        (\<lambda>e. snd e \<noteq> [] \<and> snd e = slots_of (u_items s) (fst e) \<and>
             list_all (\<lambda>p. fst (snd p) = fst e) (class_of (u_items s) (fst e)))
        (u_map s) \<and>
      list_all (\<lambda>p. umap_find (u_map s) (fst (snd p)) \<noteq> None) (u_items s))"

text \<open>
  The same, read as a lookup: the entry that \<open>find\<close> must return for a key, given the
  ledger, and the ledger keeping one key object per hash.
\<close>

definition index_of :: "('a pyobj \<times> 'v) odict \<Rightarrow> 'a pyobj \<Rightarrow> ('a pyobj \<times> 'v deque) option" where
  "index_of its key =
     (case class_of its key of
        [] \<Rightarrow> None
      | p # ps \<Rightarrow> Some (fst (snd p), slots_of its key))"

definition canonical_keys :: "('a pyobj \<times> 'v) odict \<Rightarrow> bool" where
  "canonical_keys its =
     (\<forall>p\<in>set its. \<forall>q\<in>set its.
        PyObjectPtrHashEqual (fst (snd p)) (fst (snd q)) \<longrightarrow> fst (snd p) = fst (snd q))"

text \<open>The key object that \<open>add\<close> stores for a key: the one the key index holds, if any.\<close>

definition stored_key :: "('a, 'v) omd \<Rightarrow> 'a pyobj \<Rightarrow> 'a pyobj" where
  "stored_key s key = (case umap_find (u_map s) key of None \<Rightarrow> key | Some e \<Rightarrow> fst e)"

text \<open>The public mutations, as commands, and the state a sequence of them leaves.\<close>

datatype ('a, 'v, 'o) command =
    Add "'a pyobj" 'v
  | AddAll "'a pyobj" "'v list"
  | Extend "('a pyobj \<times> 'v) list"
  | SetAll "'a pyobj" "'v list"
  | Setdefault "'a pyobj" 'v
  | SetdefaultAll "'a pyobj" "'v list"
  | Pop "'a pyobj" "'v option"
  | PopFirst "'a pyobj" "'v option"
  | PopLast "'a pyobj" "'v option"
  | PopAll "'a pyobj" "'v list_or_none option"
  | PopFirstItem "('a pyobj \<times> 'v) option"
  | PopLastItem "('a pyobj \<times> 'v) option"
  | DeleteAll "'a pyobj"
  | Clear
  | Load "('a pyobj \<times> 'v) list"
  | SetItem "'a pyobj" 'v
  | DelItem "'a pyobj"
  | Sort "'a pyobj \<times> 'v \<Rightarrow> 'o" bool

fun execute :: "('a, 'v) omd \<Rightarrow> ('a, 'v, 'o::linorder) command \<Rightarrow> ('a, 'v) omd" where
  "execute s (Add k v) = snd (add s k v)"
| "execute s (AddAll k vs) = snd (addAll s k vs)"
| "execute s (Extend kvs) = snd (extend s kvs)"
| "execute s (SetAll k vs) = snd (setAll s k vs)"
| "execute s (Setdefault k v) = snd (setdefault s k v)"
| "execute s (SetdefaultAll k vs) = snd (setdefaultAll s k vs)"
| "execute s (Pop k d) = snd (pop s k d)"
| "execute s (PopFirst k d) = snd (popFirst s k d)"
| "execute s (PopLast k d) = snd (popLast s k d)"
| "execute s (PopAll k d) = snd (popAll s k d)"
| "execute s (PopFirstItem d) = snd (popFirstItem s d)"
| "execute s (PopLastItem d) = snd (popLastItem s d)"
| "execute s (DeleteAll k) = snd (deleteAll s k)"
| "execute s Clear = clear s"
| "execute s (Load kvs) = snd (load s kvs)"
| "execute s (SetItem k v) = snd (setitem s k v)"
| "execute s (DelItem k) = snd (delitem s k)"
| "execute s (Sort key reverse) = sort_omd key reverse s"

fun is_sort :: "('a, 'v, 'o) command \<Rightarrow> bool" where
  "is_sort (Sort key reverse) = True"
| "is_sort c = False"

definition run :: "('a, 'v, 'o::linorder) command list \<Rightarrow> ('a, 'v) omd" where
  "run cs = foldl execute empty_omd cs"

text \<open>
  Order of first occurrence, in the words of the specification: the keys at the positions
  of a sequence where no earlier position holds a matching key.
\<close>

definition first_occurrences :: "'a pyobj list \<Rightarrow> 'a pyobj list" where
  "first_occurrences ks =
     map (\<lambda>i. ks ! i)
       (filter (\<lambda>i. \<not> list_ex (\<lambda>j. set_match (ks ! j) (ks ! i)) [0..<i]) [0..<length ks])"

section \<open>Objects for the examples\<close>

text \<open>
  CPython's small integers: one object per value, \<open>hash(n) = n\<close> except that
  \<open>hash(-1) = -2\<close>, so \<open>-1\<close> and \<open>-2\<close> are unequal keys of equal hash.
\<close>

definition py_int :: "int \<Rightarrow> int pyobj" where
  "py_int n =
     PyObj (nat (if n < 0 then 2 * (- n) - 1 else 2 * n)) (if n = - 1 then - 2 else n) n"

section \<open>Lemmas about the containers\<close>

lemmas hash_defs = PyObjectPtrHashEqual_def PyObjectPtrHash_def PyObject_Hash_def

subsection \<open>The key index as a function of the hash\<close>

lemma HashEqual_refl [simp]: "PyObjectPtrHashEqual k k"
  by (simp add: PyObjectPtrHashEqual_def)

lemma HashEqual_sym: "PyObjectPtrHashEqual a b \<Longrightarrow> PyObjectPtrHashEqual b a"
  by (simp add: PyObjectPtrHashEqual_def)

lemma HashEqual_trans:
  "PyObjectPtrHashEqual a b \<Longrightarrow> PyObjectPtrHashEqual b c \<Longrightarrow> PyObjectPtrHashEqual a c"
  by (simp add: PyObjectPtrHashEqual_def)

lemma umap_find_hash:
  "PyObjectPtrHashEqual a b \<Longrightarrow> umap_find m a = umap_find m b"
  by (induction m) (auto simp: PyObjectPtrHashEqual_def)

lemma umap_find_SomeD:
  "umap_find m key = Some e \<Longrightarrow> e \<in> set m \<and> PyObjectPtrHashEqual (fst e) key"
  by (induction m) (auto split: if_splits)

lemma umap_find_None_iff:
  "(umap_find m key = None) = (\<forall>e\<in>set m. \<not> PyObjectPtrHashEqual (fst e) key)"
  by (induction m) auto

lemma umap_find_distinct:
  "distinct (map (\<lambda>e. PyObjectPtrHash (fst e)) m) \<Longrightarrow> e \<in> set m \<Longrightarrow>
   PyObjectPtrHashEqual (fst e) key \<Longrightarrow> umap_find m key = Some e"
  by (induction m) (auto simp: PyObjectPtrHashEqual_def rev_image_eqI)

lemma umap_find_assign:
  "umap_find (umap_assign m key d) key' =
     (if PyObjectPtrHashEqual key key' then map_option (\<lambda>e. (fst e, d)) (umap_find m key')
      else umap_find m key')"
  by (induction m) (auto simp: PyObjectPtrHashEqual_def)

lemma umap_find_erase:
  "umap_find (umap_erase m key) key' =
     (if PyObjectPtrHashEqual key key' then None else umap_find m key')"
  by (induction m) (auto simp: umap_erase_def PyObjectPtrHashEqual_def)

lemma umap_find_append:
  "umap_find (m @ [e]) key' =
     (case umap_find m key' of
        Some x \<Rightarrow> Some x
      | None \<Rightarrow> if PyObjectPtrHashEqual (fst e) key' then Some e else None)"
  by (induction m) auto

lemma hashes_umap_assign:
  "map (\<lambda>e. PyObjectPtrHash (fst e)) (umap_assign m key d) = map (\<lambda>e. PyObjectPtrHash (fst e)) m"
  by (induction m) auto

lemma distinct_umap_erase:
  "distinct (map (\<lambda>e. PyObjectPtrHash (fst e)) m) \<Longrightarrow>
   distinct (map (\<lambda>e. PyObjectPtrHash (fst e)) (umap_erase m key))"
  by (simp add: umap_erase_def distinct_map_filter)

lemma distinct_umap_append:
  "distinct (map (\<lambda>e. PyObjectPtrHash (fst e)) m) \<Longrightarrow> umap_find m key = None \<Longrightarrow>
   distinct (map (\<lambda>e. PyObjectPtrHash (fst e)) (m @ [(key, d)]))"
  by (auto simp: umap_find_None_iff PyObjectPtrHashEqual_def)

subsection \<open>The ledger\<close>

lemma od_getitem_map_of: "od_getitem od i = map_of od i"
  by (induction od) auto

lemma od_getitem_distinct:
  "distinct (map fst od) \<Longrightarrow> (i, e) \<in> set od \<Longrightarrow> od_getitem od i = Some e"
  by (simp add: od_getitem_map_of)

lemma od_getitem_None_iff: "(od_getitem od i = None) = (i \<notin> fst ` set od)"
  by (simp add: od_getitem_map_of map_of_eq_None_iff)

lemma od_setitem_fresh: "i \<notin> fst ` set od \<Longrightarrow> od_setitem od i e = od @ [(i, e)]"
  by (induction od) auto

lemma class_of_hash:
  "PyObjectPtrHashEqual a b \<Longrightarrow> class_of its a = class_of its b"
  unfolding class_of_def by (rule filter_cong) (auto simp: PyObjectPtrHashEqual_def)

lemma slots_of_hash:
  "PyObjectPtrHashEqual a b \<Longrightarrow> slots_of its a = slots_of its b"
  by (simp add: slots_of_def class_of_hash)

lemma in_class_of:
  "(p \<in> set (class_of its key)) = (p \<in> set its \<and> PyObjectPtrHashEqual (fst (snd p)) key)"
  by (simp add: class_of_def)

lemma slots_of_Nil_iff: "(slots_of its key = []) = (class_of its key = [])"
  by (simp add: slots_of_def)

lemma index_of_None_iff: "(index_of its key = None) = (class_of its key = [])"
  by (simp add: index_of_def split: list.splits)

lemma index_of_hash:
  assumes "PyObjectPtrHashEqual a b"
  shows "index_of its a = index_of its b"
  unfolding index_of_def class_of_hash [OF assms] slots_of_hash [OF assms] by (rule refl)

lemma index_of_SomeD:
  assumes "index_of its key = Some e"
  obtains p ps where "class_of its key = p # ps" and "fst e = fst (snd p)"
    and "snd e = slots_of its key"
proof (cases "class_of its key")
  case Nil
  with assms show ?thesis by (simp add: index_of_def)
next
  case (Cons p ps)
  with assms have "fst e = fst (snd p)" "snd e = slots_of its key"
    by (auto simp: index_of_def)
  with Cons that show ?thesis by blast
qed

subsection \<open>The invariant, by lookup\<close>

lemma omd_inv_iff:
  "omd_inv s =
     (distinct (map fst (u_items s)) \<and>
      (\<forall>p\<in>set (u_items s). fst p < u_index s) \<and>
      distinct (map (\<lambda>e. PyObjectPtrHash (fst e)) (u_map s)) \<and>
      (\<forall>key. umap_find (u_map s) key = index_of (u_items s) key) \<and>
      canonical_keys (u_items s))"
  (is "?L = ?R")
proof
  assume L: ?L
  then have d1: "distinct (map fst (u_items s))"
    and lt: "\<forall>p\<in>set (u_items s). fst p < u_index s"
    and d2: "distinct (map (\<lambda>e. PyObjectPtrHash (fst e)) (u_map s))"
    and ent: "\<forall>e\<in>set (u_map s). snd e \<noteq> [] \<and> snd e = slots_of (u_items s) (fst e) \<and>
               (\<forall>p\<in>set (class_of (u_items s) (fst e)). fst (snd p) = fst e)"
    and itm: "\<forall>p\<in>set (u_items s). umap_find (u_map s) (fst (snd p)) \<noteq> None"
    unfolding omd_inv_def list_all_iff by blast+
  have f: "umap_find (u_map s) key = index_of (u_items s) key" for key
  proof (cases "umap_find (u_map s) key")
    case None
    have "class_of (u_items s) key = []"
    proof (rule ccontr)
      assume "class_of (u_items s) key \<noteq> []"
      then obtain p where "p \<in> set (class_of (u_items s) key)"
        by (cases "class_of (u_items s) key") auto
      then have p: "p \<in> set (u_items s)" "PyObjectPtrHashEqual (fst (snd p)) key"
        by (simp_all add: in_class_of)
      from itm p(1) have "umap_find (u_map s) (fst (snd p)) \<noteq> None" by blast
      with umap_find_hash [OF p(2), of "u_map s"] None show False by simp
    qed
    with None show ?thesis by (simp add: index_of_def)
  next
    case (Some e)
    from umap_find_SomeD [OF Some] have e: "e \<in> set (u_map s)" "PyObjectPtrHashEqual (fst e) key"
      by simp_all
    from ent e(1) have e1: "snd e \<noteq> []" "snd e = slots_of (u_items s) (fst e)"
      "\<forall>p\<in>set (class_of (u_items s) (fst e)). fst (snd p) = fst e" by blast+
    from e1(1,2) obtain p ps where c: "class_of (u_items s) (fst e) = p # ps"
      by (cases "class_of (u_items s) (fst e)") (auto simp: slots_of_def)
    with e1(3) have "fst (snd p) = fst e" by simp
    with c e1(2) have "index_of (u_items s) (fst e) = Some e"
      by (simp add: index_of_def prod_eq_iff)
    with Some index_of_hash [OF e(2), of "u_items s"] show ?thesis by simp
  qed
  have "canonical_keys (u_items s)"
    unfolding canonical_keys_def
  proof (intro ballI impI)
    fix p q
    assume p: "p \<in> set (u_items s)" and q: "q \<in> set (u_items s)"
      and pq: "PyObjectPtrHashEqual (fst (snd p)) (fst (snd q))"
    from itm p obtain e where e: "umap_find (u_map s) (fst (snd p)) = Some e" by auto
    from umap_find_SomeD [OF e] have e': "e \<in> set (u_map s)" "PyObjectPtrHashEqual (fst e) (fst (snd p))"
      by simp_all
    from e'(2) pq have "PyObjectPtrHashEqual (fst e) (fst (snd q))" by (rule HashEqual_trans)
    with e'(2) p q have "p \<in> set (class_of (u_items s) (fst e))" "q \<in> set (class_of (u_items s) (fst e))"
      by (simp_all add: in_class_of HashEqual_sym)
    with ent e'(1) show "fst (snd p) = fst (snd q)" by metis
  qed
  with d1 lt d2 f show ?R by blast
next
  assume R: ?R
  then have d1: "distinct (map fst (u_items s))"
    and lt: "\<forall>p\<in>set (u_items s). fst p < u_index s"
    and d2: "distinct (map (\<lambda>e. PyObjectPtrHash (fst e)) (u_map s))"
    and f: "\<And>key. umap_find (u_map s) key = index_of (u_items s) key"
    and can: "canonical_keys (u_items s)"
    by simp_all
  have ent: "snd e \<noteq> [] \<and> snd e = slots_of (u_items s) (fst e) \<and>
               (\<forall>p\<in>set (class_of (u_items s) (fst e)). fst (snd p) = fst e)"
    if e: "e \<in> set (u_map s)" for e
  proof -
    from umap_find_distinct [OF d2 e, of "fst e"] f [of "fst e"]
    have i: "index_of (u_items s) (fst e) = Some e" by simp
    then obtain p ps where c: "class_of (u_items s) (fst e) = p # ps"
      and k: "fst e = fst (snd p)" and sl: "snd e = slots_of (u_items s) (fst e)"
      by (rule index_of_SomeD)
    from c have pin: "p \<in> set (u_items s)" "PyObjectPtrHashEqual (fst (snd p)) (fst e)"
      using in_class_of [of p "u_items s" "fst e"] by simp_all
    have "fst (snd q) = fst e" if "q \<in> set (class_of (u_items s) (fst e))" for q
    proof -
      from that have q: "q \<in> set (u_items s)" "PyObjectPtrHashEqual (fst (snd q)) (fst e)"
        by (simp_all add: in_class_of)
      from q(2) pin(2) have "PyObjectPtrHashEqual (fst (snd q)) (fst (snd p))"
        by (simp add: PyObjectPtrHashEqual_def)
      with can q(1) pin(1) k show ?thesis by (simp add: canonical_keys_def)
    qed
    with c sl show ?thesis by (simp add: slots_of_def)
  qed
  have itm: "umap_find (u_map s) (fst (snd p)) \<noteq> None" if "p \<in> set (u_items s)" for p
  proof -
    from that have "p \<in> set (class_of (u_items s) (fst (snd p)))" by (simp add: in_class_of)
    then have "class_of (u_items s) (fst (snd p)) \<noteq> []" by auto
    then show ?thesis by (simp add: f index_of_None_iff)
  qed
  from d1 lt d2 ent itm show ?L unfolding omd_inv_def list_all_iff by blast
qed

lemma omd_invD:
  assumes "omd_inv s"
  shows "distinct (map fst (u_items s))"
    and "\<And>p. p \<in> set (u_items s) \<Longrightarrow> fst p < u_index s"
    and "distinct (map (\<lambda>e. PyObjectPtrHash (fst e)) (u_map s))"
    and "\<And>key. umap_find (u_map s) key = index_of (u_items s) key"
    and "canonical_keys (u_items s)"
  using assms by (simp_all add: omd_inv_iff)

lemma omd_invI:
  assumes "distinct (map fst (u_items s))"
    and "\<And>p. p \<in> set (u_items s) \<Longrightarrow> fst p < u_index s"
    and "distinct (map (\<lambda>e. PyObjectPtrHash (fst e)) (u_map s))"
    and "\<And>key. umap_find (u_map s) key = index_of (u_items s) key"
    and "canonical_keys (u_items s)"
  shows "omd_inv s"
  using assms by (simp add: omd_inv_iff)

lemma omd_inv_empty: "omd_inv empty_omd"
  by (simp add: omd_inv_def empty_omd_def)

lemma omd_inv_clear: "omd_inv (clear s)"
  by (simp add: omd_inv_def clear_def)

lemma class_of_append:
  "class_of (its @ [p]) key =
     class_of its key @ (if PyObjectPtrHashEqual (fst (snd p)) key then [p] else [])"
  by (simp add: class_of_def)

lemma slots_of_append:
  "slots_of (its @ [p]) key =
     slots_of its key @
       (if PyObjectPtrHashEqual (fst (snd p)) key then [(fst p, snd (snd p))] else [])"
  by (simp add: slots_of_def class_of_append)

lemma index_of_append:
  "index_of (its @ [p]) key =
     (if PyObjectPtrHashEqual (fst (snd p)) key
      then (case index_of its key of
              None \<Rightarrow> Some (fst (snd p), [(fst p, snd (snd p))])
            | Some e \<Rightarrow> Some (fst e, snd e @ [(fst p, snd (snd p))]))
      else index_of its key)"
  by (cases "class_of its key") (auto simp: index_of_def slots_of_def class_of_append)

lemma canonical_keys_append:
  assumes "canonical_keys its"
    and "\<And>q. q \<in> set its \<Longrightarrow> PyObjectPtrHashEqual (fst (snd q)) k \<Longrightarrow> fst (snd q) = k"
  shows "canonical_keys (its @ [(i, (k, v))])"
proof -
  have "fst (snd q) = k" if "q \<in> set its" "PyObjectPtrHashEqual k (fst (snd q))" for q
    using that assms(2) HashEqual_sym by blast
  with assms show ?thesis
    unfolding canonical_keys_def by (simp add: ball_Un) blast
qed

lemma inv_stored_key:
  assumes "omd_inv s" and "q \<in> set (u_items s)"
    and "PyObjectPtrHashEqual (fst (snd q)) key"
  shows "fst (snd q) = stored_key s key"
proof -
  from assms(2,3) have "q \<in> set (class_of (u_items s) key)" by (simp add: in_class_of)
  then obtain p ps where c: "class_of (u_items s) key = p # ps"
    by (cases "class_of (u_items s) key") auto
  then have i: "umap_find (u_map s) key = Some (fst (snd p), slots_of (u_items s) key)"
    by (simp add: omd_invD(4) [OF assms(1)] index_of_def)
  from c have "p \<in> set (u_items s)" "PyObjectPtrHashEqual (fst (snd p)) key"
    using in_class_of [of p "u_items s" key] by simp_all
  with assms(2,3) omd_invD(5) [OF assms(1)] have "fst (snd q) = fst (snd p)"
    by (simp add: canonical_keys_def PyObjectPtrHashEqual_def)
  with i show ?thesis by (simp add: stored_key_def)
qed

lemma add_inv:
  assumes inv: "omd_inv s"
  shows "fst (add s key v) = Inr ()"
    and "u_items (snd (add s key v)) = u_items s @ [(u_index s, (stored_key s key, v))]"
    and "u_index (snd (add s key v)) = Suc (u_index s)"
    and "omd_inv (snd (add s key v))"
proof -
  note d = omd_invD [OF inv]
  have fresh: "u_index s \<notin> fst ` set (u_items s)"
    using d(2) by fastforce
  let ?p = "(u_index s, (stored_key s key, v))"
  let ?its = "u_items s @ [?p]"
  have hk: "PyObjectPtrHashEqual (stored_key s key) key"
    by (auto simp: stored_key_def split: option.splits dest: umap_find_SomeD)
  have "fst (add s key v) = Inr () \<and> u_items (snd (add s key v)) = ?its \<and>
        u_index (snd (add s key v)) = Suc (u_index s) \<and> omd_inv (snd (add s key v))"
  proof (cases "umap_find (u_map s) key")
    case None
    have sk: "stored_key s key = key" using None by (simp add: stored_key_def)
    have eq: "add s key v =
      (Inr (), s\<lparr>u_index := Suc (u_index s),
                 u_map := umap_assign (u_map s @ [(key, [])]) key [(u_index s, v)],
                 u_items := ?its\<rparr>)"
      using None fresh by (simp add: add_def umap_subscript_def od_setitem_fresh sk Let_def)
    let ?s' = "snd (add s key v)"
    have "omd_inv ?s'"
    proof (rule omd_invI)
      show "distinct (map fst (u_items ?s'))" using d(1) fresh by (simp add: eq)
      show "fst p < u_index ?s'" if "p \<in> set (u_items ?s')" for p
        using that d(2) [of p] by (auto simp: eq less_Suc_eq)
      show "distinct (map (\<lambda>e. PyObjectPtrHash (fst e)) (u_map ?s'))"
        using distinct_umap_append [OF d(3) None]
        by (simp add: eq hashes_umap_assign del: map_append)
      show "umap_find (u_map ?s') key' = index_of (u_items ?s') key'" for key'
        using None d(4) [of key'] umap_find_hash [of key key' "u_map s"]
        by (auto simp: eq umap_find_assign umap_find_append index_of_append sk
            split: option.splits)
      show "canonical_keys (u_items ?s')"
        unfolding eq snd_conv
        using inv_stored_key [OF inv, of _ key] d(5) sk
        by (simp add: canonical_keys_append)
    qed
    with eq show ?thesis by simp
  next
    case (Some e)
    have sk: "stored_key s key = fst e" using Some by (simp add: stored_key_def)
    from Some d(4) [of key] have "index_of (u_items s) key = Some e" by simp
    then obtain p ps where c: "class_of (u_items s) key = p # ps"
      and k: "fst e = fst (snd p)" and sl: "snd e = slots_of (u_items s) key"
      by (rule index_of_SomeD)
    from c have pin: "p \<in> set (u_items s)"
      using in_class_of [of p "u_items s" key] by simp
    then have "(fst p, snd p) \<in> set (u_items s)" by simp
    from od_getitem_distinct [OF d(1) this]
    have g: "od_getitem (u_items s) (fst p) = Some (snd p)" .
    from c sl have hd: "snd e \<noteq> []" "fst (hd (snd e)) = fst p"
      by (simp_all add: slots_of_def)
    have eq: "add s key v =
      (Inr (), s\<lparr>u_index := Suc (u_index s),
                 u_map := umap_assign (u_map s) key (snd e @ [(u_index s, v)]),
                 u_items := ?its\<rparr>)"
      using Some fresh hd g k
      by (simp add: add_def umap_subscript_def od_setitem_fresh sk Let_def)
    let ?s' = "snd (add s key v)"
    have "omd_inv ?s'"
    proof (rule omd_invI)
      show "distinct (map fst (u_items ?s'))" using d(1) fresh by (simp add: eq)
      show "fst p < u_index ?s'" if "p \<in> set (u_items ?s')" for p
        using that d(2) [of p] by (auto simp: eq less_Suc_eq)
      show "distinct (map (\<lambda>e. PyObjectPtrHash (fst e)) (u_map ?s'))"
        using d(3) by (simp add: eq hashes_umap_assign)
      show "umap_find (u_map ?s') key' = index_of (u_items ?s') key'" for key'
        using Some d(4) [of key'] umap_find_hash [of key key' "u_map s"] hk
        by (auto simp: eq umap_find_assign index_of_append sk PyObjectPtrHashEqual_def
            split: option.splits)
      show "canonical_keys (u_items ?s')"
      proof -
        have "fst (snd q) = fst e"
          if "q \<in> set (u_items s)" "PyObjectPtrHashEqual (fst (snd q)) (fst e)" for q
        proof -
          from that(2) hk sk have "PyObjectPtrHashEqual (fst (snd q)) key"
            by (simp add: PyObjectPtrHashEqual_def)
          from inv_stored_key [OF inv that(1) this] sk show ?thesis by simp
        qed
        with d(5) show ?thesis by (simp add: eq sk canonical_keys_append)
      qed
    qed
    with eq show ?thesis by simp
  qed
then show "fst (add s key v) = Inr ()"
    and "u_items (snd (add s key v)) = u_items s @ [(u_index s, (stored_key s key, v))]"
    and "u_index (snd (add s key v)) = Suc (u_index s)"
    and "omd_inv (snd (add s key v))"
    by simp_all
qed

subsection \<open>Taking one slot out\<close>

lemma class_of_od_remove: "class_of (od_remove its i) key = od_remove (class_of its key) i"
  by (auto simp: class_of_def od_remove_def intro: filter_cong)

lemma od_remove_absent: "i \<notin> fst ` set xs \<Longrightarrow> od_remove xs i = xs"
  by (auto simp: od_remove_def filter_id_conv)

lemma od_remove_hd: "distinct (map fst (p # ps)) \<Longrightarrow> od_remove (p # ps) (fst p) = ps"
  using od_remove_absent [of "fst p" ps] by (simp add: od_remove_def)

lemma od_remove_last:
  assumes "distinct (map fst xs)" and "xs \<noteq> []"
  shows "od_remove xs (fst (last xs)) = butlast xs"
proof (cases xs rule: rev_cases)
  case Nil
  with assms show ?thesis by simp
next
  case (snoc ys y)
  with assms od_remove_absent [of "fst y" ys] show ?thesis by (simp add: od_remove_def)
qed

lemma distinct_class_of: "distinct (map fst its) \<Longrightarrow> distinct (map fst (class_of its key))"
  by (simp add: class_of_def distinct_map_filter)

lemma distinct_od_remove: "distinct (map fst its) \<Longrightarrow> distinct (map fst (od_remove its i))"
  by (simp add: od_remove_def distinct_map_filter)

lemma set_od_remove: "set (od_remove its i) = {p \<in> set its. fst p \<noteq> i}"
  by (simp add: od_remove_def)

lemma index_of_cong:
  assumes "class_of its key = class_of its' key'"
  shows "index_of its key = index_of its' key'"
  unfolding index_of_def slots_of_def assms by (rule refl)

lemma canonical_keys_subset:
  "canonical_keys its \<Longrightarrow> set its' \<subseteq> set its \<Longrightarrow> canonical_keys its'"
  unfolding canonical_keys_def by blast

lemma od_delitem_present:
  "(i, e) \<in> set its \<Longrightarrow> od_delitem its i = Inr (od_remove its i)"
  by (cases "od_getitem its i") (auto simp: od_delitem_def od_getitem_None_iff rev_image_eqI)

lemma getAllOrNull_inv:
  assumes "omd_inv s"
  shows "getAllOrNull s key =
     (if class_of (u_items s) key = [] then Inr None else Inr (Some (slots_of (u_items s) key)))"
  by (cases "class_of (u_items s) key")
    (simp_all add: getAllOrNull_def omd_invD(4) [OF assms] index_of_def slots_of_def)

lemma contains_inv:
  assumes "omd_inv s"
  shows "contains s key = (class_of (u_items s) key \<noteq> [])"
  by (simp add: contains_def omd_invD(4) [OF assms] index_of_None_iff)

lemma inv_remove_slot:
  assumes inv: "omd_inv s"
    and p: "p \<in> set (class_of (u_items s) key)"
    and d': "d' = slots_of (od_remove (u_items s) (fst p)) key"
    and s': "s' = s\<lparr>u_items := od_remove (u_items s) (fst p),
                     u_map := (if d' = [] then umap_erase (umap_assign (u_map s) key d') key
                               else umap_assign (u_map s) key d')\<rparr>"
  shows "omd_inv s'"
proof (rule omd_invI)
  note d = omd_invD [OF inv]
  let ?its' = "od_remove (u_items s) (fst p)"
  from p have pin: "p \<in> set (u_items s)" and pk: "PyObjectPtrHashEqual (fst (snd p)) key"
    by (simp_all add: in_class_of)
  have sub: "set ?its' \<subseteq> set (u_items s)" by (auto simp: set_od_remove)
  show "distinct (map fst (u_items s'))" using d(1) by (simp add: s' distinct_od_remove)
  show "fst q < u_index s'" if "q \<in> set (u_items s')" for q
    using that d(2) [of q] sub by (auto simp: s')
  show "distinct (map (\<lambda>e. PyObjectPtrHash (fst e)) (u_map s'))"
    using d(3) by (simp add: s' distinct_umap_erase hashes_umap_assign)
  show "canonical_keys (u_items s')"
    using canonical_keys_subset [OF d(5) sub] by (simp add: s')
  show "umap_find (u_map s') key' = index_of (u_items s') key'" for key'
  proof (cases "PyObjectPtrHashEqual key key'")
    case True
    have cl: "class_of ?its' key' = class_of ?its' key"
      using True by (simp add: class_of_hash [OF HashEqual_sym])
    show ?thesis
    proof (cases "d' = []")
      case True
      then have "class_of ?its' key = []" by (simp add: d' slots_of_def)
      with True \<open>PyObjectPtrHashEqual key key'\<close> cl show ?thesis
        by (simp add: s' umap_find_erase index_of_def)
    next
      case False
      then obtain q qs where q: "class_of ?its' key = q # qs"
        by (cases "class_of ?its' key") (auto simp: d' slots_of_def)
      then have "q \<in> set (class_of ?its' key)" by simp
      then have "q \<in> set (u_items s)" "PyObjectPtrHashEqual (fst (snd q)) key"
        using sub by (auto simp: in_class_of)
      from inv_stored_key [OF inv this] have qk: "fst (snd q) = stored_key s key" .
      from p obtain e where e: "umap_find (u_map s) key = Some e"
        by (cases "class_of (u_items s) key") (auto simp: d(4) index_of_def)
      with qk have "fst e = fst (snd q)" by (simp add: stored_key_def)
      with e False q cl umap_find_hash [OF \<open>PyObjectPtrHashEqual key key'\<close>, of "u_map s"]
      show ?thesis
        using \<open>PyObjectPtrHashEqual key key'\<close>
        by (simp add: s' umap_find_assign index_of_def d' slots_of_def)
    qed
  next
    case False
    have "fst p \<notin> fst ` set (class_of (u_items s) key')"
    proof
      assume "fst p \<in> fst ` set (class_of (u_items s) key')"
      then obtain q where q: "q \<in> set (u_items s)" "PyObjectPtrHashEqual (fst (snd q)) key'"
        "fst q = fst p" by (auto simp: in_class_of)
      from d(1) q(1,3) pin have "q = p" by (metis eq_key_imp_eq_value prod.collapse)
      with q(2) pk False show False by (simp add: PyObjectPtrHashEqual_def)
    qed
    then have "class_of ?its' key' = class_of (u_items s) key'"
      by (simp add: class_of_od_remove od_remove_absent)
    from index_of_cong [OF this] False d(4) [of key'] show ?thesis
      by (simp add: s' umap_find_erase umap_find_assign)
  qed
qed

lemma popFirst_inv:
  assumes inv: "omd_inv s" and c: "class_of (u_items s) key = p # ps"
  shows "fst (popFirst s key dflt) = Inr (snd (snd p))"
    and "u_items (snd (popFirst s key dflt)) = od_remove (u_items s) (fst p)"
    and "u_index (snd (popFirst s key dflt)) = u_index s"
    and "omd_inv (snd (popFirst s key dflt))"
proof -
  note d = omd_invD [OF inv]
  from c have pin: "p \<in> set (class_of (u_items s) key)" by simp
  then have "(fst p, snd p) \<in> set (u_items s)" by (simp add: in_class_of)
  note del = od_delitem_present [OF this]
  have dc: "distinct (map fst (p # ps))" using distinct_class_of [OF d(1), of key] c by simp
  have tl: "tl (slots_of (u_items s) key) = slots_of (od_remove (u_items s) (fst p)) key"
    using od_remove_hd [OF dc] by (simp add: slots_of_def class_of_od_remove c)
  let ?d' = "slots_of (od_remove (u_items s) (fst p)) key"
  let ?s' = "s\<lparr>u_items := od_remove (u_items s) (fst p),
                u_map := (if ?d' = [] then umap_erase (umap_assign (u_map s) key ?d') key
                          else umap_assign (u_map s) key ?d')\<rparr>"
  have eq: "popFirst s key dflt = (Inr (snd (snd p)), ?s')"
    using c del tl [symmetric]
    by (simp add: popFirst_def getAllOrNull_inv [OF inv] Let_def slots_of_def)
  from inv_remove_slot [OF inv pin refl refl] have "omd_inv ?s'" .
  with eq show "fst (popFirst s key dflt) = Inr (snd (snd p))"
    and "u_items (snd (popFirst s key dflt)) = od_remove (u_items s) (fst p)"
    and "u_index (snd (popFirst s key dflt)) = u_index s"
    and "omd_inv (snd (popFirst s key dflt))"
    by simp_all
qed

lemma popLast_inv:
  assumes inv: "omd_inv s" and c: "class_of (u_items s) key \<noteq> []"
  shows "fst (popLast s key dflt) = Inr (snd (snd (last (class_of (u_items s) key))))"
    and "u_items (snd (popLast s key dflt)) =
           od_remove (u_items s) (fst (last (class_of (u_items s) key)))"
    and "u_index (snd (popLast s key dflt)) = u_index s"
    and "omd_inv (snd (popLast s key dflt))"
proof -
  note d = omd_invD [OF inv]
  let ?p = "last (class_of (u_items s) key)"
  from c have pin: "?p \<in> set (class_of (u_items s) key)" by simp
  then have "(fst ?p, snd ?p) \<in> set (u_items s)" by (simp add: in_class_of)
  note del = od_delitem_present [OF this]
  have dc: "distinct (map fst (class_of (u_items s) key))" by (rule distinct_class_of [OF d(1)])
  have bl: "butlast (slots_of (u_items s) key) = slots_of (od_remove (u_items s) (fst ?p)) key"
    using od_remove_last [OF dc c] by (simp add: slots_of_def class_of_od_remove map_butlast)
  have la: "last (slots_of (u_items s) key) = (fst ?p, snd (snd ?p))"
    using c by (simp add: slots_of_def last_map)
  let ?d' = "slots_of (od_remove (u_items s) (fst ?p)) key"
  let ?s' = "s\<lparr>u_items := od_remove (u_items s) (fst ?p),
                u_map := (if ?d' = [] then umap_erase (umap_assign (u_map s) key ?d') key
                          else umap_assign (u_map s) key ?d')\<rparr>"
  have eq: "popLast s key dflt = (Inr (snd (snd ?p)), ?s')"
    using c del bl [symmetric] la
    by (simp add: popLast_def getAllOrNull_inv [OF inv] Let_def)
  from inv_remove_slot [OF inv pin refl refl] have "omd_inv ?s'" .
  with eq show "fst (popLast s key dflt) = Inr (snd (snd ?p))"
    and "u_items (snd (popLast s key dflt)) = od_remove (u_items s) (fst ?p)"
    and "u_index (snd (popLast s key dflt)) = u_index s"
    and "omd_inv (snd (popLast s key dflt))"
    by simp_all
qed

lemma popFirst_absent:
  assumes "omd_inv s" and "class_of (u_items s) key = []"
  shows "popFirst s key dflt = (case dflt of Some d \<Rightarrow> (Inr d, s) | None \<Rightarrow> (Inl KeyError, s))"
  using assms(2) by (simp add: popFirst_def getAllOrNull_inv [OF assms(1)])

lemma popLast_absent:
  assumes "omd_inv s" and "class_of (u_items s) key = []"
  shows "popLast s key dflt = (case dflt of Some d \<Rightarrow> (Inr d, s) | None \<Rightarrow> (Inl KeyError, s))"
  using assms(2) by (simp add: popLast_def getAllOrNull_inv [OF assms(1)])

subsection \<open>The oldest and the newest item\<close>

lemma class_of_first:
  "class_of (p # rest) (fst (snd p)) = p # class_of rest (fst (snd p))"
  by (simp add: class_of_def)

lemma last_class_of:
  assumes "its \<noteq> []"
  shows "last (class_of its (fst (snd (last its)))) = last its"
    and "class_of its (fst (snd (last its))) \<noteq> []"
proof -
  from assms obtain ys y where "its = ys @ [y]" by (cases its rule: rev_cases) auto
  then show "last (class_of its (fst (snd (last its)))) = last its"
    and "class_of its (fst (snd (last its))) \<noteq> []"
    by (simp_all add: class_of_def)
qed

lemma popFirstItem_inv:
  assumes inv: "omd_inv s" and its: "u_items s = p # rest"
  shows "fst (popFirstItem s dflt) = Inr (snd p)"
    and "snd (popFirstItem s dflt) = snd (popFirst s (fst (snd p)) None)"
    and "u_items (snd (popFirstItem s dflt)) = rest"
    and "u_index (snd (popFirstItem s dflt)) = u_index s"
    and "omd_inv (snd (popFirstItem s dflt))"
proof -
  note d = omd_invD [OF inv]
  let ?key = "fst (snd p)"
  have c: "class_of (u_items s) ?key = p # class_of rest ?key"
    by (simp add: its class_of_first)
  have rm: "od_remove (u_items s) (fst p) = rest"
    using d(1) od_remove_hd [of p rest] by (simp add: its)
  have f: "umap_find (u_map s) ?key = Some (?key, (fst p, snd (snd p)) # slots_of rest ?key)"
    by (simp add: d(4) index_of_def c slots_of_def)
  have del: "od_delitem (u_items s) (fst p) = Inr rest"
    using od_delitem_present [of "fst p" "snd p" "u_items s"] rm by (simp add: its)
  have 1: "popFirstItem s dflt =
     (Inr (snd p),
      s\<lparr>u_items := rest,
        u_map := (if slots_of rest ?key = []
                  then umap_erase (umap_assign (u_map s) ?key (slots_of rest ?key)) ?key
                  else umap_assign (u_map s) ?key (slots_of rest ?key))\<rparr>)"
    by (simp add: popFirstItem_def its getAllOrNull_def f Let_def)
  have 2: "popFirst s ?key None =
     (Inr (snd (snd p)),
      s\<lparr>u_items := rest,
        u_map := (if slots_of rest ?key = []
                  then umap_erase (umap_assign (u_map s) ?key (slots_of rest ?key)) ?key
                  else umap_assign (u_map s) ?key (slots_of rest ?key))\<rparr>)"
    by (simp add: popFirst_def getAllOrNull_def f Let_def del)
  from 1 2 popFirst_inv [OF inv c, of None] rm
  show "fst (popFirstItem s dflt) = Inr (snd p)"
    and "snd (popFirstItem s dflt) = snd (popFirst s (fst (snd p)) None)"
    and "u_items (snd (popFirstItem s dflt)) = rest"
    and "u_index (snd (popFirstItem s dflt)) = u_index s"
    and "omd_inv (snd (popFirstItem s dflt))"
    by simp_all
qed

lemma popLastItem_inv:
  assumes inv: "omd_inv s" and its: "u_items s \<noteq> []"
  shows "fst (popLastItem s dflt) = Inr (snd (last (u_items s)))"
    and "snd (popLastItem s dflt) = snd (popLast s (fst (snd (last (u_items s)))) None)"
    and "u_items (snd (popLastItem s dflt)) = butlast (u_items s)"
    and "u_index (snd (popLastItem s dflt)) = u_index s"
    and "omd_inv (snd (popLastItem s dflt))"
proof -
  note d = omd_invD [OF inv]
  let ?p = "last (u_items s)"
  let ?key = "fst (snd ?p)"
  note lc = last_class_of [OF its]
  have rm: "od_remove (u_items s) (fst ?p) = butlast (u_items s)"
    using od_remove_last [OF d(1) its] .
  obtain q qs where c: "class_of (u_items s) ?key = q # qs"
    using lc(2) by (cases "class_of (u_items s) ?key") auto
  have f: "umap_find (u_map s) ?key = Some (fst (snd q), slots_of (u_items s) ?key)"
    by (simp add: d(4) index_of_def c)
  have ne: "slots_of (u_items s) ?key \<noteq> []" using lc(2) by (simp add: slots_of_def)
  have la: "last (slots_of (u_items s) ?key) = (fst ?p, snd (snd ?p))"
    using lc by (simp add: slots_of_def last_map)
  have "(fst ?p, snd ?p) \<in> set (u_items s)" using its by simp
  from od_delitem_present [OF this] rm
  have del: "od_delitem (u_items s) (fst ?p) = Inr (butlast (u_items s))" by simp
  let ?d' = "butlast (slots_of (u_items s) ?key)"
  have 1: "popLastItem s dflt =
     (Inr (snd ?p),
      s\<lparr>u_items := butlast (u_items s),
        u_map := (if ?d' = [] then umap_erase (umap_assign (u_map s) ?key ?d') ?key
                  else umap_assign (u_map s) ?key ?d')\<rparr>)"
    using its ne by (simp add: popLastItem_def getAllOrNull_def f Let_def)
  have 2: "popLast s ?key None =
     (Inr (snd (snd ?p)),
      s\<lparr>u_items := butlast (u_items s),
        u_map := (if ?d' = [] then umap_erase (umap_assign (u_map s) ?key ?d') ?key
                  else umap_assign (u_map s) ?key ?d')\<rparr>)"
    using ne by (simp add: popLast_def getAllOrNull_def f Let_def del la)
  from 1 2 popLast_inv [OF inv lc(2), of None] rm lc(1)
  show "fst (popLastItem s dflt) = Inr (snd (last (u_items s)))"
    and "snd (popLastItem s dflt) = snd (popLast s (fst (snd (last (u_items s)))) None)"
    and "u_items (snd (popLastItem s dflt)) = butlast (u_items s)"
    and "u_index (snd (popLastItem s dflt)) = u_index s"
    and "omd_inv (snd (popLastItem s dflt))"
    by simp_all
qed

lemma popFirstItem_empty:
  "u_items s = [] \<Longrightarrow>
   popFirstItem s dflt = (case dflt of Some d \<Rightarrow> (Inr d, s) | None \<Rightarrow> (Inl KeyError, s))"
  by (simp add: popFirstItem_def)

lemma popLastItem_empty:
  "u_items s = [] \<Longrightarrow>
   popLastItem s dflt = (case dflt of Some d \<Rightarrow> (Inr d, s) | None \<Rightarrow> (Inl KeyError, s))"
  by (simp add: popLastItem_def)

subsection \<open>Taking a whole key out\<close>

lemma delete_slots_present:
  assumes "distinct (map fst its)" and "distinct (map fst vals)"
    and "fst ` set vals \<subseteq> fst ` set its"
  shows "delete_slots its vals = (Inr (), filter (\<lambda>p. fst p \<notin> fst ` set vals) its)"
  using assms
proof (induction vals arbitrary: its)
  case Nil
  then show ?case by simp
next
  case (Cons val vals)
  from Cons.prems(3) obtain e where e: "(fst val, e) \<in> set its" by auto
  have 1: "distinct (map fst (od_remove its (fst val)))"
    using Cons.prems(1) by (rule distinct_od_remove)
  have 2: "distinct (map fst vals)" using Cons.prems(2) by simp
  have 3: "fst ` set vals \<subseteq> fst ` set (od_remove its (fst val))"
  proof
    fix a assume a: "a \<in> fst ` set vals"
    have "fst val \<notin> fst ` set vals" using Cons.prems(2) by simp
    with a have "a \<noteq> fst val" by blast
    moreover from a Cons.prems(3) obtain q where "q \<in> set its" "fst q = a" by auto
    ultimately show "a \<in> fst ` set (od_remove its (fst val))"
      by (force simp: set_od_remove)
  qed
  from Cons.IH [OF 1 2 3] od_delitem_present [OF e] show ?case
    by (auto simp: od_remove_def intro: filter_cong)
qed

lemma popAll_loop_present:
  assumes "distinct (map fst its)" and "distinct (map fst vals)"
    and "fst ` set vals \<subseteq> fst ` set its"
  shows "popAll_loop its vals result =
           (Inr (result @ map snd vals), filter (\<lambda>p. fst p \<notin> fst ` set vals) its)"
  using assms
proof (induction vals arbitrary: its result)
  case Nil
  then show ?case by simp
next
  case (Cons val vals)
  from Cons.prems(3) obtain e where e: "(fst val, e) \<in> set its" by auto
  have 1: "distinct (map fst (od_remove its (fst val)))"
    using Cons.prems(1) by (rule distinct_od_remove)
  have 2: "distinct (map fst vals)" using Cons.prems(2) by simp
  have 3: "fst ` set vals \<subseteq> fst ` set (od_remove its (fst val))"
  proof
    fix a assume a: "a \<in> fst ` set vals"
    have "fst val \<notin> fst ` set vals" using Cons.prems(2) by simp
    with a have "a \<noteq> fst val" by blast
    moreover from a Cons.prems(3) obtain q where "q \<in> set its" "fst q = a" by auto
    ultimately show "a \<in> fst ` set (od_remove its (fst val))"
      by (force simp: set_od_remove)
  qed
  from Cons.IH [OF 1 2 3] od_delitem_present [OF e] show ?case
    by (auto simp: od_remove_def intro: filter_cong)
qed

lemma filter_slots_of:
  assumes "distinct (map fst its)"
  shows "filter (\<lambda>p. fst p \<notin> fst ` set (slots_of its key)) its =
         filter (\<lambda>p. \<not> PyObjectPtrHashEqual (fst (snd p)) key) its"
proof (rule filter_cong [OF refl])
  fix p assume p: "p \<in> set its"
  have "(fst p \<in> fst ` set (slots_of its key)) = (fst p \<in> fst ` set (class_of its key))"
    by (simp add: slots_of_def image_image)
  also have "\<dots> = (p \<in> set (class_of its key))"
  proof
    assume "fst p \<in> fst ` set (class_of its key)"
    then obtain q where q: "q \<in> set (class_of its key)" "fst q = fst p" by auto
    then have "q \<in> set its" by (simp add: in_class_of)
    with assms p q(2) have "q = p" by (metis eq_key_imp_eq_value prod.collapse)
    with q(1) show "p \<in> set (class_of its key)" by simp
  qed simp
  finally show "(fst p \<notin> fst ` set (slots_of its key)) =
                (\<not> PyObjectPtrHashEqual (fst (snd p)) key)"
    using p by (simp add: in_class_of)
qed

lemma class_of_without:
  "class_of (filter (\<lambda>p. \<not> PyObjectPtrHashEqual (fst (snd p)) key) its) key' =
     (if PyObjectPtrHashEqual key key' then [] else class_of its key')"
  by (auto simp: class_of_def PyObjectPtrHashEqual_def intro: filter_cong)

lemma inv_remove_key:
  assumes inv: "omd_inv s"
    and s': "s' = s\<lparr>u_items := filter (\<lambda>p. \<not> PyObjectPtrHashEqual (fst (snd p)) key) (u_items s),
                     u_map := umap_erase (u_map s) key\<rparr>"
  shows "omd_inv s'"
proof (rule omd_invI)
  note d = omd_invD [OF inv]
  show "distinct (map fst (u_items s'))" using d(1) by (simp add: s' distinct_map_filter)
  show "fst q < u_index s'" if "q \<in> set (u_items s')" for q
    using that d(2) [of q] by (simp add: s')
  show "distinct (map (\<lambda>e. PyObjectPtrHash (fst e)) (u_map s'))"
    using d(3) by (simp add: s' distinct_umap_erase)
  show "canonical_keys (u_items s')"
    using canonical_keys_subset [OF d(5), of "u_items s'"] by (simp add: s')
  show "umap_find (u_map s') key' = index_of (u_items s') key'" for key'
  proof (cases "PyObjectPtrHashEqual key key'")
    case True
    then show ?thesis by (simp add: s' umap_find_erase index_of_def class_of_without)
  next
    case False
    then have "class_of (u_items s') key' = class_of (u_items s) key'"
      by (simp add: s' class_of_without)
    from index_of_cong [OF this] False d(4) [of key'] show ?thesis
      by (simp add: s' umap_find_erase)
  qed
qed

lemma slots_of_in_ledger:
  "distinct (map fst its) \<Longrightarrow> distinct (map fst (slots_of its key))"
  "fst ` set (slots_of its key) \<subseteq> fst ` set its"
  by (force simp: slots_of_def class_of_def distinct_map_filter comp_def)+

lemma tryDeleteAll_inv:
  assumes inv: "omd_inv s"
  shows "fst (tryDeleteAll s key) = Inr (class_of (u_items s) key \<noteq> [])"
    and "u_items (snd (tryDeleteAll s key)) =
           filter (\<lambda>p. \<not> PyObjectPtrHashEqual (fst (snd p)) key) (u_items s)"
    and "u_index (snd (tryDeleteAll s key)) = u_index s"
    and "omd_inv (snd (tryDeleteAll s key))"
proof -
  note d = omd_invD [OF inv]
  have "fst (tryDeleteAll s key) = Inr (class_of (u_items s) key \<noteq> []) \<and>
    u_items (snd (tryDeleteAll s key)) =
           filter (\<lambda>p. \<not> PyObjectPtrHashEqual (fst (snd p)) key) (u_items s) \<and>
    u_index (snd (tryDeleteAll s key)) = u_index s \<and>
    omd_inv (snd (tryDeleteAll s key))"
  proof (cases "class_of (u_items s) key = []")
    case True
    then have "filter (\<lambda>p. \<not> PyObjectPtrHashEqual (fst (snd p)) key) (u_items s) = u_items s"
      by (auto simp: class_of_def filter_id_conv filter_empty_conv)
    with True inv show ?thesis
      by (simp add: tryDeleteAll_def getAllOrNull_inv [OF inv])
  next
    case False
    have "delete_slots (u_items s) (slots_of (u_items s) key) =
            (Inr (), filter (\<lambda>p. \<not> PyObjectPtrHashEqual (fst (snd p)) key) (u_items s))"
      using delete_slots_present [OF d(1) slots_of_in_ledger(1) [OF d(1), of key]
          slots_of_in_ledger(2) [of "u_items s" key]]
      by (simp add: filter_slots_of [OF d(1)])
    with False inv_remove_key [OF inv refl, of key] show ?thesis
      by (simp add: tryDeleteAll_def getAllOrNull_inv [OF inv])
  qed
  then show "fst (tryDeleteAll s key) = Inr (class_of (u_items s) key \<noteq> [])"
    and "u_items (snd (tryDeleteAll s key)) =
           filter (\<lambda>p. \<not> PyObjectPtrHashEqual (fst (snd p)) key) (u_items s)"
    and "u_index (snd (tryDeleteAll s key)) = u_index s"
    and "omd_inv (snd (tryDeleteAll s key))"
    by simp_all
qed

lemma popAll_present_inv:
  assumes inv: "omd_inv s" and c: "class_of (u_items s) key \<noteq> []"
  shows "fst (popAll s key passed) = Inr (PyList (map snd (slots_of (u_items s) key)))"
    and "u_items (snd (popAll s key passed)) =
           filter (\<lambda>p. \<not> PyObjectPtrHashEqual (fst (snd p)) key) (u_items s)"
    and "u_map (snd (popAll s key passed)) = umap_erase (u_map s) key"
    and "u_index (snd (popAll s key passed)) = u_index s"
    and "omd_inv (snd (popAll s key passed))"
proof -
  note d = omd_invD [OF inv]
  have "popAll_loop (u_items s) (slots_of (u_items s) key) [] =
          (Inr (map snd (slots_of (u_items s) key)),
           filter (\<lambda>p. \<not> PyObjectPtrHashEqual (fst (snd p)) key) (u_items s))"
    using popAll_loop_present [OF d(1) slots_of_in_ledger(1) [OF d(1), of key]
        slots_of_in_ledger(2) [of "u_items s" key], of "[]"]
    by (simp add: filter_slots_of [OF d(1)])
  with c inv_remove_key [OF inv refl, of key]
  show "fst (popAll s key passed) = Inr (PyList (map snd (slots_of (u_items s) key)))"
    and "u_items (snd (popAll s key passed)) =
           filter (\<lambda>p. \<not> PyObjectPtrHashEqual (fst (snd p)) key) (u_items s)"
    and "u_map (snd (popAll s key passed)) = umap_erase (u_map s) key"
    and "u_index (snd (popAll s key passed)) = u_index s"
    and "omd_inv (snd (popAll s key passed))"
    by (simp_all add: popAll_def getAllOrNull_inv [OF inv])
qed

lemma popAll_absent:
  assumes "\<not> contains s key"
  shows "popAll s key passed =
     (case passed of
        None \<Rightarrow> (Inl KeyError, s)
      | Some PyNone \<Rightarrow> (Inl KeyError, s)
      | Some (PyList l) \<Rightarrow> (Inr (PyList l), s))"
  using assms
  by (cases "umap_find (u_map s) key")
    (simp_all add: popAll_def contains_def getAllOrNull_def split: option.splits list_or_none.splits)

subsection \<open>Every mutation but sort keeps the two containers in step\<close>

lemma popFirst_keeps_inv:
  assumes "omd_inv s"
  shows "omd_inv (snd (popFirst s key dflt))"
proof (cases "class_of (u_items s) key")
  case Nil
  with assms show ?thesis by (simp add: popFirst_absent split: option.splits)
next
  case (Cons p ps)
  with assms show ?thesis by (simp add: popFirst_inv(4))
qed

lemma popLast_keeps_inv:
  assumes "omd_inv s"
  shows "omd_inv (snd (popLast s key dflt))"
proof (cases "class_of (u_items s) key = []")
  case True
  with assms show ?thesis by (simp add: popLast_absent split: option.splits)
next
  case False
  with assms show ?thesis by (simp add: popLast_inv(4))
qed

lemma popFirstItem_keeps_inv:
  assumes "omd_inv s"
  shows "omd_inv (snd (popFirstItem s dflt))"
proof (cases "u_items s")
  case Nil
  with assms show ?thesis by (simp add: popFirstItem_empty split: option.splits)
next
  case (Cons p rest)
  with assms show ?thesis by (simp add: popFirstItem_inv(5))
qed

lemma popLastItem_keeps_inv:
  assumes "omd_inv s"
  shows "omd_inv (snd (popLastItem s dflt))"
proof (cases "u_items s = []")
  case True
  with assms show ?thesis by (simp add: popLastItem_empty split: option.splits)
next
  case False
  with assms show ?thesis by (simp add: popLastItem_inv(5))
qed

lemma popAll_keeps_inv:
  assumes "omd_inv s"
  shows "omd_inv (snd (popAll s key passed))"
proof (cases "class_of (u_items s) key = []")
  case True
  then have "\<not> contains s key" by (simp add: contains_inv [OF assms])
  with assms show ?thesis
    by (simp add: popAll_absent split: option.splits list_or_none.splits)
next
  case False
  with assms show ?thesis by (simp add: popAll_present_inv(5))
qed

lemma addAll_inv:
  assumes "omd_inv s"
  shows "fst (addAll s key vs) = Inr ()"
    and "omd_inv (snd (addAll s key vs))"
  using assms
proof (induction vs arbitrary: s)
  case Nil
  { case 1 show ?case by simp }
  { case 2 then show ?case by simp }
next
  case (Cons v vs)
  { case 1
    from add_inv(1,4) [OF 1, of key v] Cons.IH(1) [of "snd (add s key v)"]
    show ?case by (cases "add s key v") simp }
  { case 2
    from add_inv(1,4) [OF 2, of key v] Cons.IH(2) [of "snd (add s key v)"]
    show ?case by (cases "add s key v") simp }
qed

lemma extend_inv:
  assumes "omd_inv s"
  shows "fst (extend s kvs) = Inr ()"
    and "omd_inv (snd (extend s kvs))"
  using assms
proof (induction kvs arbitrary: s)
  case Nil
  { case 1 show ?case by simp }
  { case 2 then show ?case by simp }
next
  case (Cons kv kvs)
  { case 1
    from add_inv(1,4) [OF 1, of "fst kv" "snd kv"] Cons.IH(1) [of "snd (add s (fst kv) (snd kv))"]
    show ?case by (cases kv; cases "add s (fst kv) (snd kv)") simp }
  { case 2
    from add_inv(1,4) [OF 2, of "fst kv" "snd kv"] Cons.IH(2) [of "snd (add s (fst kv) (snd kv))"]
    show ?case by (cases kv; cases "add s (fst kv) (snd kv)") simp }
qed

lemma load_loop_extend: "load_loop s kvs = extend s kvs"
  by (induction kvs arbitrary: s) (auto split: prod.splits sum.splits)

lemma load_inv:
  shows "fst (load s kvs) = Inr ()" and "omd_inv (snd (load s kvs))"
  by (simp_all add: load_def load_loop_extend extend_inv omd_inv_clear)

lemma setdefault_keeps_inv:
  assumes "omd_inv s"
  shows "omd_inv (snd (setdefault s key dflt))"
  using assms add_inv(1,4) [OF assms, of key dflt]
  by (cases "add s key dflt")
    (simp add: setdefault_def getAllOrNull_inv [OF assms])

lemma setdefaultAll_keeps_inv:
  assumes "omd_inv s"
  shows "omd_inv (snd (setdefaultAll s key defaultlist))"
  using assms addAll_inv [OF assms, of key defaultlist]
  by (cases "addAll s key defaultlist")
    (simp add: setdefaultAll_def getAllOrNull_inv [OF assms])

lemma deleteAll_keeps_inv:
  assumes "omd_inv s"
  shows "omd_inv (snd (deleteAll s key))"
  using tryDeleteAll_inv(1,4) [OF assms, of key]
  by (cases "tryDeleteAll s key") (simp add: deleteAll_def)

lemma setAll_inv:
  assumes "omd_inv s"
  shows "fst (setAll s key vs) = Inr ()" and "omd_inv (snd (setAll s key vs))"
  using tryDeleteAll_inv(1,4) [OF assms, of key]
    addAll_inv [of "snd (tryDeleteAll s key)" key vs]
  by (cases "tryDeleteAll s key"; simp add: setAll_def)+

lemma delitem_keeps_inv:
  assumes "omd_inv s"
  shows "omd_inv (snd (delitem s key))"
  using popLast_keeps_inv [OF assms, of key None]
  by (cases "popLast s key None") (auto simp: delitem_def pop_def split: sum.splits)

lemma execute_keeps_inv:
  assumes "omd_inv s" and "\<not> is_sort c"
  shows "omd_inv (execute s c)"
  using assms
  by (cases c)
    (simp_all add: add_inv(4) addAll_inv(2) extend_inv(2) setAll_inv(2) setdefault_keeps_inv
      setdefaultAll_keeps_inv pop_def popFirst_keeps_inv popLast_keeps_inv popAll_keeps_inv
      popFirstItem_keeps_inv popLastItem_keeps_inv deleteAll_keeps_inv omd_inv_clear
      load_inv(2) setitem_def delitem_keeps_inv)

lemma foldl_execute_keeps_inv:
  "omd_inv s \<Longrightarrow> list_all (\<lambda>c. \<not> is_sort c) cs \<Longrightarrow> omd_inv (foldl execute s cs)"
  by (induction cs arbitrary: s) (simp_all add: execute_keeps_inv)

lemma run_without_sort_inv:
  "list_all (\<lambda>c. \<not> is_sort c) cs \<Longrightarrow> omd_inv (run cs)"
  by (simp add: run_def foldl_execute_keeps_inv omd_inv_empty)

lemma omd_inv_dual_index:
  assumes "omd_inv s"
  shows "dual_index_inv s"
proof -
  note d = omd_invD [OF assms]
  have 1: "od_getitem (u_items s) (fst pr) = Some (fst e, snd pr)"
    if e: "e \<in> set (u_map s)" and pr: "pr \<in> set (snd e)" for e pr
  proof -
    from umap_find_distinct [OF d(3) e, of "fst e"] d(4) [of "fst e"]
    have "index_of (u_items s) (fst e) = Some e" by simp
    then obtain p ps where c: "class_of (u_items s) (fst e) = p # ps"
      and sl: "snd e = slots_of (u_items s) (fst e)"
      by (rule index_of_SomeD)
    from pr sl obtain q where q: "q \<in> set (class_of (u_items s) (fst e))"
      "pr = (fst q, snd (snd q))" by (auto simp: slots_of_def)
    then have qi: "q \<in> set (u_items s)" "PyObjectPtrHashEqual (fst (snd q)) (fst e)"
      by (simp_all add: in_class_of)
    from inv_stored_key [OF assms qi] umap_find_distinct [OF d(3) e, of "fst e"]
    have "fst (snd q) = fst e" by (simp add: stored_key_def)
    with q(2) have "(fst pr, (fst e, snd pr)) = q" by (simp add: prod_eq_iff)
    with qi(1) od_getitem_distinct [OF d(1), of "fst pr" "(fst e, snd pr)"]
    show ?thesis by simp
  qed
  have 2: "case umap_find (u_map s) (fst (snd p)) of
             None \<Rightarrow> False
           | Some e \<Rightarrow> (fst p, snd (snd p)) \<in> set (snd e)"
    if p: "p \<in> set (u_items s)" for p
  proof -
    from p have pc: "p \<in> set (class_of (u_items s) (fst (snd p)))" by (simp add: in_class_of)
    then obtain q qs where "class_of (u_items s) (fst (snd p)) = q # qs"
      by (cases "class_of (u_items s) (fst (snd p))") auto
    then have "umap_find (u_map s) (fst (snd p)) =
        Some (fst (snd q), slots_of (u_items s) (fst (snd p)))"
      by (simp add: d(4) index_of_def)
    with pc show ?thesis by (force simp: slots_of_def)
  qed
  from 1 2 show ?thesis unfolding dual_index_inv_def list_all_iff by blast
qed

lemma omd_inv_nonempty: "omd_inv s \<Longrightarrow> nonempty_inv s"
  unfolding omd_inv_def nonempty_inv_def list_all_iff by blast

subsection \<open>Reading a map whose containers are in step\<close>

lemma getall_inv:
  assumes "omd_inv s"
  shows "getall s key None = Inr (map (\<lambda>p. snd (snd p)) (class_of (u_items s) key))"
  by (simp add: getall_def getAllOrNull_inv [OF assms] slots_of_def comp_def)

lemma slots_of_remove_last:
  assumes "distinct (map fst its)" and "class_of its key \<noteq> []"
  shows "class_of (od_remove its (fst (last (class_of its key)))) key = butlast (class_of its key)"
  using od_remove_last [OF distinct_class_of [OF assms(1)] assms(2)]
  by (simp add: class_of_od_remove)

lemma slots_of_remove_first:
  assumes "distinct (map fst its)" and "class_of its key = p # ps"
  shows "class_of (od_remove its (fst p)) key = ps"
  using od_remove_hd [of p ps] distinct_class_of [OF assms(1), of key] assms(2)
  by (simp add: class_of_od_remove)


lemma setAll_single_inv:
  assumes inv: "omd_inv s"
  shows "fst (setAll s k [v]) = Inr ()"
    and "u_items (snd (setAll s k [v])) =
           filter (\<lambda>p. \<not> PyObjectPtrHashEqual (fst (snd p)) k) (u_items s) @
             [(u_index s, (k, v))]"
    and "omd_inv (snd (setAll s k [v]))"
proof -
  note t = tryDeleteAll_inv [OF inv, of k]
  let ?s1 = "snd (tryDeleteAll s k)"
  have c: "class_of (u_items ?s1) k = []" by (simp add: t(2) class_of_without)
  then have "umap_find (u_map ?s1) k = None"
    by (simp add: omd_invD(4) [OF t(4)] index_of_def)
  then have sk: "stored_key ?s1 k = k" by (simp add: stored_key_def)
  note a = add_inv [OF t(4), of k v]
  have eq: "setAll s k [v] = ((fst (add ?s1 k v)), snd (add ?s1 k v))"
    using t(1) a(1)
    by (cases "tryDeleteAll s k"; cases "add ?s1 k v") (simp add: setAll_def)
  from eq a sk t(2,3)
  show "fst (setAll s k [v]) = Inr ()"
    and "u_items (snd (setAll s k [v])) =
           filter (\<lambda>p. \<not> PyObjectPtrHashEqual (fst (snd p)) k) (u_items s) @
             [(u_index s, (k, v))]"
    and "omd_inv (snd (setAll s k [v]))"
    by simp_all
qed

lemma delitem_popLast: "snd (delitem s k) = snd (popLast s k None)"
  by (cases "popLast s k None") (auto simp: delitem_def pop_def split: sum.splits)

subsection \<open>What holds as long as sort is not called\<close>

lemma run_without_sort_in_step:
  assumes "list_all (\<lambda>c. \<not> is_sort c) cs"
  shows "dual_index_inv (run cs)" and "nonempty_inv (run cs)"
  using run_without_sort_inv [OF assms]
  by (simp_all add: omd_inv_dual_index omd_inv_nonempty)

lemma pop_of_last_value_purges:
  assumes inv: "omd_inv s" and c: "class_of (u_items s) k = [p]"
  shows "\<not> contains (snd (popFirst s k dflt)) k"
    and "\<not> contains (snd (popLast s k dflt)) k"
    and "\<not> contains (snd (popAll s k passed)) k"
proof -
  note d = omd_invD [OF inv]
  from c have ne: "class_of (u_items s) k \<noteq> []" by simp
  note f = popFirst_inv [OF inv c, of dflt]
  note l = popLast_inv [OF inv ne, of dflt]
  note a = popAll_present_inv [OF inv ne, of passed]
  show "\<not> contains (snd (popFirst s k dflt)) k"
    by (simp add: contains_inv [OF f(4)] f(2) slots_of_remove_first [OF d(1) c])
  show "\<not> contains (snd (popLast s k dflt)) k"
    using slots_of_remove_last [OF d(1) ne]
    by (simp add: contains_inv [OF l(4)] l(2) c)
  show "\<not> contains (snd (popAll s k passed)) k"
    by (simp add: contains_inv [OF a(5)] a(2) class_of_without)
qed

lemma item_pop_of_last_value_purges:
  assumes inv: "omd_inv s" and its: "u_items s \<noteq> []"
  shows "class_of (u_items s) (fst (snd (hd (u_items s)))) = [hd (u_items s)] \<Longrightarrow>
         \<not> contains (snd (popFirstItem s dflt)) (fst (snd (hd (u_items s))))"
    and "class_of (u_items s) (fst (snd (last (u_items s)))) = [last (u_items s)] \<Longrightarrow>
         \<not> contains (snd (popLastItem s dflt)) (fst (snd (last (u_items s))))"
proof -
  from its obtain p rest where pr: "u_items s = p # rest" by (cases "u_items s") auto
  show "\<not> contains (snd (popFirstItem s dflt)) (fst (snd (hd (u_items s))))"
    if "class_of (u_items s) (fst (snd (hd (u_items s)))) = [hd (u_items s)]"
    using that pop_of_last_value_purges(1) [OF inv, of "fst (snd p)" p None]
    by (simp add: popFirstItem_inv(2) [OF inv pr] pr)
  show "\<not> contains (snd (popLastItem s dflt)) (fst (snd (last (u_items s))))"
    if "class_of (u_items s) (fst (snd (last (u_items s)))) = [last (u_items s)]"
    using that pop_of_last_value_purges(2) [OF inv that, of None]
    by (simp add: popLastItem_inv(2) [OF inv its])
qed

lemma popFirst_popLast_two_values:
  assumes inv: "omd_inv s" and c: "class_of (u_items s) k = [p, q]"
  shows "fst (popFirst s k None) = Inr (snd (snd p))"
    and "fst (popLast (snd (popFirst s k None)) k None) = Inr (snd (snd q))"
    and "\<not> contains (snd (popLast (snd (popFirst s k None)) k None)) k"
proof -
  note d = omd_invD [OF inv]
  note f = popFirst_inv [OF inv c, of None]
  have c1: "class_of (u_items (snd (popFirst s k None))) k = [q]"
    by (simp add: f(2) slots_of_remove_first [OF d(1) c])
  then have ne: "class_of (u_items (snd (popFirst s k None))) k \<noteq> []" by simp
  from f(1) show "fst (popFirst s k None) = Inr (snd (snd p))" .
  from popLast_inv(1) [OF f(4) ne, of None] c1
  show "fst (popLast (snd (popFirst s k None)) k None) = Inr (snd (snd q))" by simp
  from pop_of_last_value_purges(2) [OF f(4) c1]
  show "\<not> contains (snd (popLast (snd (popFirst s k None)) k None)) k" .
qed

lemma extend_canonical:
  assumes "omd_inv s"
    and "\<forall>kv\<in>set kvs. \<forall>q\<in>snd ` set (u_items s) \<union> set kvs.
           PyObjectPtrHashEqual (fst kv) (fst q) \<longrightarrow> fst kv = fst q"
  shows "items (snd (extend s kvs)) = items s @ kvs"
  using assms
proof (induction kvs arbitrary: s)
  case Nil
  then show ?case by simp
next
  case (Cons kv kvs)
  obtain k v where kv: "kv = (k, v)" by (cases kv)
  note a = add_inv [OF Cons.prems(1), of k v]
  have sk: "stored_key s k = k"
  proof (cases "class_of (u_items s) k")
    case Nil
    then have "umap_find (u_map s) k = None"
      by (simp add: omd_invD(4) [OF Cons.prems(1)] index_of_def)
    then show ?thesis by (simp add: stored_key_def)
  next
    case (Cons p ps)
    then have p: "p \<in> set (u_items s)" "PyObjectPtrHashEqual (fst (snd p)) k"
      using in_class_of [of p "u_items s" k] by simp_all
    from p(1) have "snd p \<in> snd ` set (u_items s) \<union> set (kv # kvs)" by simp
    with Cons.prems(2) p(2) kv have "k = fst (snd p)"
      by (auto dest: HashEqual_sym)
    with inv_stored_key [OF Cons.prems(1) p] show ?thesis by simp
  qed
  have "\<forall>kv'\<in>set kvs. \<forall>q\<in>snd ` set (u_items (snd (add s k v))) \<union> set kvs.
           PyObjectPtrHashEqual (fst kv') (fst q) \<longrightarrow> fst kv' = fst q"
    using Cons.prems(2) by (auto simp: a(2) sk kv)
  from Cons.IH [OF a(4) this] a(1) a(2) show ?case
    by (cases "add s k v") (simp add: kv items_def od_values_def sk)
qed

lemma eq_loop_refl: "eq_loop xs xs"
  by (induction xs) (simp_all add: tuple_ne_def py_is_def)

lemma load_items_roundtrip:
  assumes "omd_inv s"
  shows "fst (load t (items s)) = Inr ()"
    and "items (snd (load t (items s))) = items s"
    and "omd_eq (snd (load t (items s))) s"
proof -
  have "\<forall>kv\<in>set (items s). \<forall>q\<in>snd ` set (u_items (clear t)) \<union> set (items s).
           PyObjectPtrHashEqual (fst kv) (fst q) \<longrightarrow> fst kv = fst q"
    using omd_invD(5) [OF assms]
    by (auto simp: canonical_keys_def items_def od_values_def clear_def)
  from extend_canonical [OF omd_inv_clear this]
  have i: "items (snd (load t (items s))) = items s"
    by (simp add: load_def load_loop_extend) (simp add: items_def od_values_def clear_def)
  show "fst (load t (items s)) = Inr ()" by (rule load_inv(1))
  from i show "items (snd (load t (items s))) = items s" .
  from i show "omd_eq (snd (load t (items s))) s" by (simp add: omd_eq_def eq_loop_refl)
qed

subsection \<open>What sort does to the ledger\<close>

lemma sort_omd_ledger:
  "map fst (u_items (sort_omd key reverse s)) = [0..<length (u_items s)]"
  "items (sort_omd key reverse s) = py_sorted key reverse (items s)"
  "u_map (sort_omd key reverse s) = u_map s"
  "u_index (sort_omd key reverse s) = u_index s"
  by (simp_all add: sort_omd_def items_def od_values_def py_sorted_def)

lemma py_sorted_stable:
  "set (py_sorted key reverse xs) = set xs"
  "length (py_sorted key reverse xs) = length xs"
  "filter (\<lambda>x. key x = c) (py_sorted key reverse xs) = filter (\<lambda>x. key x = c) xs"
  "sorted (map key (py_sorted key False xs))"
  "sorted (rev (map key (py_sorted key True xs)))"
  by (simp_all add: py_sorted_def sort_key_stable rev_filter [symmetric] rev_map [symmetric])

subsection \<open>The unique-keys generator\<close>

lemma set_match_iff:
  "set_match e k = (PyObject_Hash e = PyObject_Hash k \<and> content e = content k)"
  by (auto simp: set_match_def py_is_def py_eq_def)

lemma set_match_trans: "set_match a b \<Longrightarrow> set_match b c \<Longrightarrow> set_match a c"
  by (simp add: set_match_iff)

lemma set_match_refl: "set_match a a"
  by (simp add: set_match_iff)

lemma set_contains_iff: "set_contains seen k = (\<exists>e\<in>set seen. set_match e k)"
  by (simp add: set_contains_def list_ex_iff)

lemma set_contains_add:
  "set_contains (set_add seen k) x = (set_contains seen x \<or> set_match k x)"
  by (auto simp: set_add_def set_contains_iff intro: set_match_trans)

lemma unique_gen_snoc:
  "unique_gen seen (its @ [kv]) =
     unique_gen seen its @
       (if set_contains seen (fst kv) \<or> (\<exists>p\<in>set its. set_match (fst p) (fst kv)) then []
        else [fst kv])"
proof (induction its arbitrary: seen)
  case Nil
  show ?case by simp
next
  case (Cons p its)
  show ?case
  proof (cases "set_contains seen (fst p)")
    case True
    then have "set_match (fst p) (fst kv) \<Longrightarrow> set_contains seen (fst kv)"
      by (auto simp: set_contains_iff intro: set_match_trans)
    with True Cons.IH [of seen] show ?thesis by auto
  next
    case False
    with Cons.IH [of "set_add seen (fst p)"] show ?thesis
      by (auto simp: set_contains_add)
  qed
qed

lemma first_occurrences_snoc:
  "first_occurrences (ks @ [k]) =
     first_occurrences ks @ (if \<exists>j<length ks. set_match (ks ! j) k then [] else [k])"
proof -
  have a: "filter (\<lambda>i. \<not> list_ex (\<lambda>j. set_match ((ks @ [k]) ! j) ((ks @ [k]) ! i)) [0..<i])
             [0..<length ks] =
           filter (\<lambda>i. \<not> list_ex (\<lambda>j. set_match (ks ! j) (ks ! i)) [0..<i]) [0..<length ks]"
    by (rule filter_cong) (auto simp: list_ex_iff nth_append)
  have b: "list_ex (\<lambda>j. set_match ((ks @ [k]) ! j) k) [0..<length ks] =
           (\<exists>j<length ks. set_match (ks ! j) k)"
    by (auto simp: list_ex_iff nth_append)
  have c: "map (\<lambda>i. (ks @ [k]) ! i) (filter P [0..<length ks]) =
           map (\<lambda>i. ks ! i) (filter P [0..<length ks])" for P
    by (rule map_cong) (auto simp: nth_append)
  show ?thesis
    unfolding first_occurrences_def
    by (simp add: a b c)
qed

lemma unique_gen_first_occurrences: "unique_gen [] its = first_occurrences (map fst its)"
proof (induction its rule: rev_induct)
  case Nil
  show ?case by (simp add: first_occurrences_def)
next
  case (snoc kv its)
  have "(\<exists>p\<in>set its. set_match (fst p) (fst kv)) =
        (\<exists>j<length its. set_match (map fst its ! j) (fst kv))"
    by (metis in_set_conv_nth nth_map)
  with snoc show ?case
    by (simp add: unique_gen_snoc first_occurrences_snoc set_contains_iff)
qed

lemma unique_gen_subset: "set (unique_gen seen its) \<subseteq> fst ` set its"
  by (induction its arbitrary: seen) auto

lemma unique_gen_unseen: "u \<in> set (unique_gen seen its) \<Longrightarrow> \<not> set_contains seen u"
proof (induction its arbitrary: seen)
  case Nil
  then show ?case by simp
next
  case (Cons p its)
  show ?case
  proof (cases "set_contains seen (fst p)")
    case True
    with Cons.prems Cons.IH [of seen] show ?thesis by simp
  next
    case False
    with Cons.prems have "u = fst p \<or> u \<in> set (unique_gen (set_add seen (fst p)) its)"
      by simp
    with False Cons.IH [of "set_add seen (fst p)"] show ?thesis
      by (auto simp: set_contains_add)
  qed
qed

lemma unique_gen_unmatched: "sorted_wrt (\<lambda>a b. \<not> set_match a b) (unique_gen seen its)"
proof (induction its arbitrary: seen)
  case Nil
  show ?case by simp
next
  case (Cons p its)
  show ?case
    using Cons.IH unique_gen_unseen [of _ "set_add seen (fst p)" its]
    by (auto simp: set_contains_add)
qed

lemma unique_gen_covers:
  "p \<in> set its \<Longrightarrow>
   set_contains seen (fst p) \<or> (\<exists>u\<in>set (unique_gen seen its). set_match u (fst p))"
proof (induction its arbitrary: seen)
  case Nil
  then show ?case by simp
next
  case (Cons q its)
  show ?case
  proof (cases "p = q")
    case True
    then show ?thesis by (auto simp: set_match_refl)
  next
    case False
    with Cons.prems have "p \<in> set its" by simp
    from Cons.IH [OF this, of seen] Cons.IH [OF this, of "set_add seen (fst q)"]
    show ?thesis by (auto simp: set_contains_add)
  qed
qed

lemma popLast_keeps_older:
  assumes "getall s k None = Inr vs" and "2 \<le> length vs"
  shows "contains (snd (popLast s k None)) k"
    and "getall (snd (popLast s k None)) k None = Inr (butlast vs)"
proof -
  from assms obtain e where e: "umap_find (u_map s) k = Some e" "snd e \<noteq> []"
    "vs = map snd (snd e)"
    by (cases "umap_find (u_map s) k")
      (auto simp: getall_def getAllOrNull_def split: if_splits)
  from e(3) assms(2) have b: "butlast (snd e) \<noteq> []"
    by (cases "snd e" rule: rev_cases) auto
  let ?m = "umap_assign (u_map s) k (butlast (snd e))"
  have m: "u_map (snd (popLast s k None)) = ?m"
    using e b
    by (cases "od_delitem (u_items s) (fst (last (snd e)))")
      (simp_all add: popLast_def getAllOrNull_def Let_def)
  have f: "umap_find ?m k = Some (fst e, butlast (snd e))"
    using e(1) by (simp add: umap_find_assign)
  from m f show "contains (snd (popLast s k None)) k" by (simp add: contains_def)
  from m f b e(3) show "getall (snd (popLast s k None)) k None = Inr (butlast vs)"
    by (simp add: getall_def getAllOrNull_def map_butlast)
qed

subsection \<open>Slot ids stay fresh and in order, whatever is called\<close>

lemma slots_fresh_distinct: "slots_fresh s \<Longrightarrow> distinct (map fst (u_items s))"
  by (simp add: slots_fresh_def strict_sorted_iff)

lemma slots_fresh_map [simp]: "slots_fresh (s\<lparr>u_map := m\<rparr>) = slots_fresh s"
  by (simp add: slots_fresh_def)

lemma slots_fresh_filter:
  "slots_fresh s \<Longrightarrow> slots_fresh (s\<lparr>u_items := filter P (u_items s)\<rparr>)"
  by (simp add: slots_fresh_def sorted_wrt_map sorted_wrt_filter list_all_iff)

lemma slots_fresh_od_remove:
  "slots_fresh s \<Longrightarrow> slots_fresh (s\<lparr>u_items := od_remove (u_items s) i\<rparr>)"
  unfolding od_remove_def by (rule slots_fresh_filter)

lemma od_delitem_Inr: "od_delitem its i = Inr its' \<Longrightarrow> its' = od_remove its i"
  by (auto simp: od_delitem_def split: option.splits)

lemma add_keeps_fresh:
  assumes "slots_fresh s"
  shows "slots_fresh (snd (add s k v))"
proof -
  from assms have fresh: "u_index s \<notin> fst ` set (u_items s)"
    unfolding slots_fresh_def list_all_iff by fastforce
  obtain m1 vals where u: "umap_subscript (u_map s) k = (m1, vals)"
    by (cases "umap_subscript (u_map s) k")
  show ?thesis
  proof (cases "if vals \<noteq> [] then od_getitem (u_items s) (fst (hd vals)) else Some (k, v)")
    case None
    with u have "snd (add s k v) = s\<lparr>u_index := Suc (u_index s), u_map := m1\<rparr>"
      by (auto simp: add_def Let_def split: if_splits)
    with assms show ?thesis
      unfolding slots_fresh_def list_all_iff by (auto simp: less_Suc_eq)
  next
    case (Some item)
    with u have "snd (add s k v) =
        s\<lparr>u_index := Suc (u_index s),
          u_items := u_items s @ [(u_index s, (fst item, v))],
          u_map := umap_assign m1 k (vals @ [(u_index s, v)])\<rparr>"
      using fresh by (auto simp: add_def Let_def od_setitem_fresh split: if_splits)
    with assms show ?thesis
      unfolding slots_fresh_def list_all_iff
      by (auto simp: less_Suc_eq sorted_wrt_append)
  qed
qed

lemma addAll_keeps_fresh: "slots_fresh s \<Longrightarrow> slots_fresh (snd (addAll s k vs))"
proof (induction vs arbitrary: s)
  case Nil
  then show ?case by simp
next
  case (Cons v vs)
  from Cons.IH [OF add_keeps_fresh [OF Cons.prems, of k v]] add_keeps_fresh [OF Cons.prems, of k v]
  show ?case by (cases "add s k v") (auto split: sum.splits)
qed

lemma extend_keeps_fresh: "slots_fresh s \<Longrightarrow> slots_fresh (snd (extend s kvs))"
proof (induction kvs arbitrary: s)
  case Nil
  then show ?case by simp
next
  case (Cons kv kvs)
  from Cons.IH [OF add_keeps_fresh [OF Cons.prems, of "fst kv" "snd kv"]]
    add_keeps_fresh [OF Cons.prems, of "fst kv" "snd kv"]
  show ?case by (cases kv; cases "add s (fst kv) (snd kv)") (auto split: sum.splits)
qed

lemma clear_fresh: "slots_fresh (clear s)"
  by (simp add: slots_fresh_def clear_def)

lemma load_keeps_fresh: "slots_fresh (snd (load s kvs))"
  by (simp add: load_def load_loop_extend extend_keeps_fresh clear_fresh)

lemma popFirst_keeps_fresh:
  assumes "slots_fresh s"
  shows "slots_fresh (snd (popFirst s k dflt))"
  using assms slots_fresh_od_remove [OF assms]
  by (auto simp: popFirst_def Let_def split: sum.splits option.splits dest!: od_delitem_Inr)

lemma popLast_keeps_fresh:
  assumes "slots_fresh s"
  shows "slots_fresh (snd (popLast s k dflt))"
  using assms slots_fresh_od_remove [OF assms]
  by (auto simp: popLast_def Let_def split: sum.splits option.splits dest!: od_delitem_Inr)

lemma slots_fresh_tl:
  assumes "slots_fresh s"
  shows "slots_fresh (s\<lparr>u_items := tl (u_items s)\<rparr>)"
proof (cases "u_items s")
  case Nil
  with assms show ?thesis by (simp add: slots_fresh_def)
next
  case (Cons p rest)
  with assms show ?thesis by (simp add: slots_fresh_def)
qed

lemma slots_fresh_butlast:
  assumes "slots_fresh s"
  shows "slots_fresh (s\<lparr>u_items := butlast (u_items s)\<rparr>)"
proof (cases "u_items s" rule: rev_cases)
  case Nil
  with assms show ?thesis by (simp add: slots_fresh_def)
next
  case (snoc rest p)
  with assms show ?thesis by (simp add: slots_fresh_def sorted_wrt_append)
qed

lemma popFirstItem_keeps_fresh:
  assumes "slots_fresh s"
  shows "slots_fresh (snd (popFirstItem s dflt))"
proof (cases "u_items s")
  case Nil
  with assms show ?thesis by (simp add: popFirstItem_def split: option.splits)
next
  case (Cons slot rest)
  with slots_fresh_tl [OF assms] have "slots_fresh (s\<lparr>u_items := rest\<rparr>)" by simp
  with Cons show ?thesis
    by (auto simp: popFirstItem_def Let_def split: sum.splits option.splits)
qed

lemma popLastItem_keeps_fresh:
  assumes "slots_fresh s"
  shows "slots_fresh (snd (popLastItem s dflt))"
  using assms slots_fresh_butlast [OF assms]
  by (auto simp: popLastItem_def Let_def split: sum.splits option.splits)

lemma filter_nothing: "\<exists>I. its = filter (\<lambda>p. fst p \<notin> I) its"
  by (rule exI [of _ "{}"]) simp

lemma delete_slots_filter:
  "\<exists>I. snd (delete_slots its vals) = filter (\<lambda>p. fst p \<notin> I) its"
proof (induction vals arbitrary: its)
  case Nil
  show ?case using filter_nothing [of its] by simp
next
  case (Cons val vals)
  show ?case
  proof (cases "od_delitem its (fst val)")
    case (Inl e)
    with filter_nothing [of its] show ?thesis by simp
  next
    case (Inr its')
    then have i: "its' = od_remove its (fst val)" by (rule od_delitem_Inr)
    from Cons.IH [of its'] obtain I where
      "snd (delete_slots its' vals) = filter (\<lambda>p. fst p \<notin> I) its'" by blast
    with i have "snd (delete_slots its' vals) = filter (\<lambda>p. fst p \<notin> insert (fst val) I) its"
      by (auto simp: od_remove_def intro: filter_cong)
    then have "\<exists>J. snd (delete_slots its' vals) = filter (\<lambda>p. fst p \<notin> J) its"
      by (rule exI)
    with Inr show ?thesis by simp
  qed
qed

lemma popAll_loop_filter:
  "\<exists>I. snd (popAll_loop its vals result) = filter (\<lambda>p. fst p \<notin> I) its"
proof (induction vals arbitrary: its result)
  case Nil
  show ?case using filter_nothing [of its] by simp
next
  case (Cons val vals)
  show ?case
  proof (cases "od_delitem its (fst val)")
    case (Inl e)
    with filter_nothing [of its] show ?thesis by simp
  next
    case (Inr its')
    then have i: "its' = od_remove its (fst val)" by (rule od_delitem_Inr)
    from Cons.IH [of its' "result @ [snd val]"] obtain I where
      "snd (popAll_loop its' vals (result @ [snd val])) = filter (\<lambda>p. fst p \<notin> I) its'"
      by blast
    with i have "snd (popAll_loop its' vals (result @ [snd val])) =
        filter (\<lambda>p. fst p \<notin> insert (fst val) I) its"
      by (auto simp: od_remove_def intro: filter_cong)
    then have "\<exists>J. snd (popAll_loop its' vals (result @ [snd val])) =
        filter (\<lambda>p. fst p \<notin> J) its"
      by (rule exI)
    with Inr show ?thesis by simp
  qed
qed

lemma tryDeleteAll_keeps_fresh:
  assumes "slots_fresh s"
  shows "slots_fresh (snd (tryDeleteAll s k))"
proof (cases "getAllOrNull s k")
  case (Inl e)
  with assms show ?thesis by (simp add: tryDeleteAll_def)
next
  case (Inr r)
  show ?thesis
  proof (cases r)
    case None
    with Inr assms show ?thesis by (simp add: tryDeleteAll_def)
  next
    case (Some vals)
    have "slots_fresh (s\<lparr>u_items := snd (delete_slots (u_items s) vals)\<rparr>)"
      using delete_slots_filter [of "u_items s" vals] slots_fresh_filter [OF assms]
      by auto
    with Inr Some show ?thesis
      by (cases "delete_slots (u_items s) vals") (auto simp: tryDeleteAll_def split: sum.splits)
  qed
qed

lemma popAll_keeps_fresh:
  assumes "slots_fresh s"
  shows "slots_fresh (snd (popAll s k passed))"
proof (cases "getAllOrNull s k")
  case (Inl e)
  with assms show ?thesis by (simp add: popAll_def)
next
  case (Inr r)
  show ?thesis
  proof (cases r)
    case None
    with Inr assms show ?thesis by (simp add: popAll_def Let_def)
  next
    case (Some vals)
    have "slots_fresh (s\<lparr>u_items := snd (popAll_loop (u_items s) vals [])\<rparr>)"
      using popAll_loop_filter [of "u_items s" vals "[]"] slots_fresh_filter [OF assms]
      by auto
    with Inr Some show ?thesis
      by (cases "popAll_loop (u_items s) vals []") (auto simp: popAll_def split: sum.splits)
  qed
qed

lemma deleteAll_keeps_fresh: "slots_fresh s \<Longrightarrow> slots_fresh (snd (deleteAll s k))"
  using tryDeleteAll_keeps_fresh [of s k]
  by (cases "tryDeleteAll s k") (auto simp: deleteAll_def split: sum.splits)

lemma setAll_keeps_fresh: "slots_fresh s \<Longrightarrow> slots_fresh (snd (setAll s k vs))"
  using tryDeleteAll_keeps_fresh [of s k] addAll_keeps_fresh [of "snd (tryDeleteAll s k)" k vs]
  by (cases "tryDeleteAll s k") (auto simp: setAll_def split: sum.splits)

lemma setdefault_keeps_fresh: "slots_fresh s \<Longrightarrow> slots_fresh (snd (setdefault s k d))"
  using add_keeps_fresh [of s k d]
  by (cases "add s k d") (auto simp: setdefault_def split: sum.splits option.splits)

lemma setdefaultAll_keeps_fresh: "slots_fresh s \<Longrightarrow> slots_fresh (snd (setdefaultAll s k ds))"
  using addAll_keeps_fresh [of s k ds]
  by (cases "addAll s k ds") (auto simp: setdefaultAll_def split: sum.splits option.splits)

lemma delitem_keeps_fresh: "slots_fresh s \<Longrightarrow> slots_fresh (snd (delitem s k))"
  using popLast_keeps_fresh [of s k None] by (simp add: delitem_popLast)

lemma length_le_bound:
  assumes "distinct xs" and "\<forall>x\<in>set xs. x < (n::nat)"
  shows "length xs \<le> n"
proof -
  from assms(2) have "set xs \<subseteq> {..<n}" by auto
  then have "card (set xs) \<le> card {..<n}" by (intro card_mono) auto
  with assms(1) show ?thesis by (simp add: distinct_card)
qed

lemma sort_keeps_fresh:
  assumes "slots_fresh s"
  shows "slots_fresh (sort_omd key reverse s)"
proof -
  from assms slots_fresh_distinct [OF assms] have "length (map fst (u_items s)) \<le> u_index s"
    unfolding slots_fresh_def list_all_iff by (intro length_le_bound) auto
  then show ?thesis
    by (auto simp: slots_fresh_def list_all_iff sort_omd_def od_values_def py_sorted_def
        in_set_enumerate_eq)
qed

lemma execute_keeps_fresh: "slots_fresh s \<Longrightarrow> slots_fresh (execute s c)"
  by (cases c)
    (simp_all add: add_keeps_fresh addAll_keeps_fresh extend_keeps_fresh setAll_keeps_fresh
      setdefault_keeps_fresh setdefaultAll_keeps_fresh pop_def popFirst_keeps_fresh
      popLast_keeps_fresh popAll_keeps_fresh popFirstItem_keeps_fresh popLastItem_keeps_fresh
      deleteAll_keeps_fresh clear_fresh load_keeps_fresh setitem_def delitem_keeps_fresh
      sort_keeps_fresh)

lemma foldl_execute_keeps_fresh: "slots_fresh s \<Longrightarrow> slots_fresh (foldl execute s cs)"
  by (induction cs arbitrary: s) (simp_all add: execute_keeps_fresh)

lemma slots_fresh_empty: "slots_fresh empty_omd"
  by (simp add: slots_fresh_def empty_omd_def)

lemma run_slots_fresh: "slots_fresh (run cs)"
  by (simp add: run_def foldl_execute_keeps_fresh slots_fresh_empty)

section \<open>Lookup by hash alone\<close>

text \<open>
  Claim C9. The key index tells keys apart by their hash values only. After \<open>add(k1, v)\<close>
  on an empty map, a key \<open>k2\<close> of the same hash that does not compare equal to \<open>k1\<close>
  is in the map and \<open>get(k2)\<close> returns \<open>v\<close>; a key is in that map exactly when its
  hash is the hash of \<open>k1\<close>.
\<close>

theorem hash_only_lookup:
  assumes "PyObject_Hash k1 = PyObject_Hash k2" and "\<not> py_eq k1 k2"
  shows "add empty_omd k1 v =
           (Inr (), \<lparr>u_items = [(0, (k1, v))], u_map = [(k1, [(0, v)])], u_index = 1\<rparr>) \<and>
         contains (snd (add empty_omd k1 v)) k2 \<and>
         get (snd (add empty_omd k1 v)) k2 None = Inr (Some v) \<and>
         (\<forall>k. contains (snd (add empty_omd k1 v)) k = (PyObject_Hash k = PyObject_Hash k1))"
  using assms
  by (simp add: add_def empty_omd_def umap_subscript_def contains_def get_def
      getAllOrNull_def hash_defs)

theorem hash_only_lookup_witness:
  "PyObject_Hash (py_int (- 1)) = PyObject_Hash (py_int (- 2)) \<and>
   \<not> py_eq (py_int (- 1)) (py_int (- 2)) \<and>
   contains (snd (add empty_omd (py_int (- 1)) ''v'')) (py_int (- 2)) \<and>
   get (snd (add empty_omd (py_int (- 1)) ''v'')) (py_int (- 2)) None = Inr (Some ''v'')"
proof -
  have h: "PyObject_Hash (py_int (- 1)) = PyObject_Hash (py_int (- 2))"
    by (simp add: py_int_def PyObject_Hash_def)
  have n: "\<not> py_eq (py_int (- 1)) (py_int (- 2))"
    by (simp add: py_int_def py_eq_def)
  from hash_only_lookup [OF h n, of "''v''"] h n show ?thesis by blast
qed

section \<open>setdefaultAll with an empty list\<close>

text \<open>
  Claim C8. For a key that is not in the map, \<open>setdefaultAll(k, [])\<close> returns the
  empty list and the map is the same afterwards: ledger, key index and slot counter.
\<close>

theorem setdefaultAll_empty_list:
  assumes "\<not> contains s k"
  shows "setdefaultAll s k [] = (Inr [], s)"
  using assms
  by (cases "umap_find (u_map s) k")
    (simp_all add: setdefaultAll_def contains_def getAllOrNull_def)

theorem setdefaultAll_empty_list_witness:
  "\<not> contains (run [Add (py_int 1) ''a'', Sort snd False]) (py_int 2) \<and>
   setdefaultAll (run [Add (py_int 1) ''a'', Sort snd False]) (py_int 2) [] =
     (Inr [], \<lparr>u_items = [(0, (py_int 1, ''a''))], u_map = [(py_int 1, [(0, ''a'')])],
                u_index = 1\<rparr>)"
proof -
  have st: "run [Add (py_int 1) ''a'', Sort snd False] =
      \<lparr>u_items = [(0, (py_int 1, ''a''))], u_map = [(py_int 1, [(0, ''a'')])], u_index = 1\<rparr>"
    by code_simp
  have a: "\<not> contains (run [Add (py_int 1) ''a'', Sort snd False]) (py_int 2)"
    by code_simp
  from setdefaultAll_empty_list [OF a] a st show ?thesis by simp
qed

section \<open>Unique keys\<close>

text \<open>
  Claim C6. The ledger is read in its own order, which is the order of the slot ids in
  every state that the operations reach (\<open>run_slots_fresh\<close>). For every map, iterating
  \<open>uniqueKeys()\<close> yields the keys at the positions of the ledger where a key occurs for
  the first time, in ledger order, and
  \<open>reversed(uniqueKeys())\<close> yields the same for the ledger read from its end. In either
  result no two keys match, every result is a key of the ledger and every key of the ledger
  matches one of the results: each distinct key exactly once. After \<open>add(1,'a')\<close>,
  \<open>add(2,'b')\<close>, \<open>add(1,'c')\<close> both iterations yield \<open>[1, 2]\<close>.
\<close>

theorem uniqueKeys_first_occurrence:
  "uniqueKeys s = first_occurrences (keys s) \<and>
   uniqueKeys_reversed s = first_occurrences (rev (keys s)) \<and>
   sorted_wrt (\<lambda>a b. \<not> set_match a b) (uniqueKeys s) \<and>
   sorted_wrt (\<lambda>a b. \<not> set_match a b) (uniqueKeys_reversed s) \<and>
   set (uniqueKeys s) \<subseteq> set (keys s) \<and>
   set (uniqueKeys_reversed s) \<subseteq> set (keys s) \<and>
   (\<forall>k\<in>set (keys s). (\<exists>u\<in>set (uniqueKeys s). set_match u k) \<and>
                        (\<exists>u\<in>set (uniqueKeys_reversed s). set_match u k)) \<and>
   uniqueKeys
     (snd (add (snd (add (snd (add empty_omd (py_int 1) ''a'')) (py_int 2) ''b''))
        (py_int 1) ''c'')) = [py_int 1, py_int 2] \<and>
   uniqueKeys_reversed
     (snd (add (snd (add (snd (add empty_omd (py_int 1) ''a'')) (py_int 2) ''b''))
        (py_int 1) ''c'')) = [py_int 1, py_int 2]"
proof -
  have 1: "uniqueKeys s = first_occurrences (keys s)"
    by (simp add: uniqueKeys_def keys_def unique_gen_first_occurrences)
  have 2: "uniqueKeys_reversed s = first_occurrences (rev (keys s))"
    by (simp add: uniqueKeys_reversed_def keys_def unique_gen_first_occurrences rev_map)
  have 3: "sorted_wrt (\<lambda>a b. \<not> set_match a b) (uniqueKeys s)"
    and 4: "sorted_wrt (\<lambda>a b. \<not> set_match a b) (uniqueKeys_reversed s)"
    by (simp_all add: uniqueKeys_def uniqueKeys_reversed_def unique_gen_unmatched)
  have 5: "set (uniqueKeys s) \<subseteq> set (keys s)"
    using unique_gen_subset [of "[]" "od_values (u_items s)"]
    by (simp add: uniqueKeys_def keys_def)
  have 6: "set (uniqueKeys_reversed s) \<subseteq> set (keys s)"
    using unique_gen_subset [of "[]" "rev (od_values (u_items s))"]
    by (simp add: uniqueKeys_reversed_def keys_def)
  have 7: "\<forall>k\<in>set (keys s). (\<exists>u\<in>set (uniqueKeys s). set_match u k) \<and>
                        (\<exists>u\<in>set (uniqueKeys_reversed s). set_match u k)"
  proof
    fix k assume "k \<in> set (keys s)"
    then obtain p where p: "p \<in> set (od_values (u_items s))" "fst p = k"
      by (auto simp: keys_def)
    from p(1) have "p \<in> set (rev (od_values (u_items s)))" by simp
    from unique_gen_covers [OF p(1), of "[]"] unique_gen_covers [OF this, of "[]"] p(2)
    show "(\<exists>u\<in>set (uniqueKeys s). set_match u k) \<and>
          (\<exists>u\<in>set (uniqueKeys_reversed s). set_match u k)"
      by (simp add: uniqueKeys_def uniqueKeys_reversed_def set_contains_def)
  qed
  have 8: "uniqueKeys
     (snd (add (snd (add (snd (add empty_omd (py_int 1) ''a'')) (py_int 2) ''b''))
        (py_int 1) ''c'')) = [py_int 1, py_int 2]"
    by code_simp
  have 9: "uniqueKeys_reversed
     (snd (add (snd (add (snd (add empty_omd (py_int 1) ''a'')) (py_int 2) ''b''))
        (py_int 1) ''c'')) = [py_int 1, py_int 2]"
    by code_simp
  from 1 2 3 4 5 6 7 8 9 show ?thesis by blast
qed

theorem uniqueKeys_first_occurrence_witness:
  "keys (snd (extend empty_omd [(py_int 1, ''a''), (py_int 2, ''b''), (py_int 1, ''c'')])) =
     [py_int 1, py_int 2, py_int 1] \<and>
   first_occurrences
     (keys (snd (extend empty_omd [(py_int 1, ''a''), (py_int 2, ''b''), (py_int 1, ''c'')]))) =
     [py_int 1, py_int 2] \<and>
   first_occurrences
     (rev (keys (snd (extend empty_omd [(py_int 1, ''a''), (py_int 2, ''b''), (py_int 1, ''c'')])))) =
     [py_int 1, py_int 2] \<and>
   (\<exists>u\<in>set (uniqueKeys
       (snd (extend empty_omd [(py_int 1, ''a''), (py_int 2, ''b''), (py_int 1, ''c'')]))).
      set_match u (py_int 2))"
proof -
  let ?s = "snd (extend empty_omd [(py_int 1, ''a''), (py_int 2, ''b''), (py_int 1, ''c'')])"
  have k: "keys ?s = [py_int 1, py_int 2, py_int 1]" by code_simp
  have u: "uniqueKeys ?s = [py_int 1, py_int 2]" by code_simp
  have r: "uniqueKeys_reversed ?s = [py_int 1, py_int 2]" by code_simp
  have m: "py_int 2 \<in> set (keys ?s)" unfolding k by simp
  from uniqueKeys_first_occurrence [of ?s]
  have a: "uniqueKeys ?s = first_occurrences (keys ?s)"
    and b: "uniqueKeys_reversed ?s = first_occurrences (rev (keys ?s))"
    and c: "\<forall>k\<in>set (keys ?s). (\<exists>u\<in>set (uniqueKeys ?s). set_match u k) \<and>
                        (\<exists>u\<in>set (uniqueKeys_reversed ?s). set_match u k)"
    by blast+
  from c m have "\<exists>u\<in>set (uniqueKeys ?s). set_match u (py_int 2)" by blast
  with k u r a b show ?thesis by metis
qed

section \<open>popAll\<close>

text \<open>
  Claim C3, as stated, has \<open>popAll\<close> return any default that the caller supplies for
  an absent key. The parameter is declared \<open>default: list = None\<close> and tested with
  \<open>default is not None\<close>: a caller who supplies \<open>None\<close> gets \<open>KeyError\<close>.
\<close>

theorem popAll_None_default_raises:
  "popAll (empty_omd :: (int, string) omd) (py_int 1) (Some PyNone) =
     (Inl KeyError, empty_omd) \<and>
   popAll (empty_omd :: (int, string) omd) (py_int 1) (Some PyNone) \<noteq>
     (Inr PyNone, empty_omd)"
  by (simp add: popAll_def getAllOrNull_def empty_omd_def)

text \<open>
  Claim C3, amended. For a key that is absent, \<open>popAll(k, default)\<close> raises \<open>KeyError\<close>
  when no default is supplied or the default is \<open>None\<close>, and returns the default when a
  list is supplied; the map is unchanged in each case. For a key that is present in a map
  whose key index and ledger are in step, it returns the values of the key's ledger entries
  in ledger order, oldest first, which is what \<open>getall\<close> returns, and removes every
  entry of the key from the ledger and the key from the key index.
\<close>

theorem popAll_contract:
  "(\<not> contains s k \<longrightarrow>
      popAll s k passed =
        (case passed of
           None \<Rightarrow> (Inl KeyError, s)
         | Some PyNone \<Rightarrow> (Inl KeyError, s)
         | Some (PyList l) \<Rightarrow> (Inr (PyList l), s))) \<and>
   (omd_inv s \<and> contains s k \<longrightarrow>
      fst (popAll s k passed) =
        Inr (PyList (map (\<lambda>p. snd (snd p)) (class_of (u_items s) k))) \<and>
      getall s k None = Inr (map (\<lambda>p. snd (snd p)) (class_of (u_items s) k)) \<and>
      u_items (snd (popAll s k passed)) =
        filter (\<lambda>p. \<not> PyObjectPtrHashEqual (fst (snd p)) k) (u_items s) \<and>
      \<not> contains (snd (popAll s k passed)) k \<and>
      omd_inv (snd (popAll s k passed)))"
proof -
  have "fst (popAll s k passed) =
        Inr (PyList (map (\<lambda>p. snd (snd p)) (class_of (u_items s) k))) \<and>
      getall s k None = Inr (map (\<lambda>p. snd (snd p)) (class_of (u_items s) k)) \<and>
      u_items (snd (popAll s k passed)) =
        filter (\<lambda>p. \<not> PyObjectPtrHashEqual (fst (snd p)) k) (u_items s) \<and>
      \<not> contains (snd (popAll s k passed)) k \<and>
      omd_inv (snd (popAll s k passed))"
    if inv: "omd_inv s" and "contains s k"
  proof -
    from that have c: "class_of (u_items s) k \<noteq> []" by (simp add: contains_inv [OF inv])
    note p = popAll_present_inv [OF inv c, of passed]
    have "\<not> contains (snd (popAll s k passed)) k"
      by (simp add: contains_inv [OF p(5)] p(2) class_of_without)
    with p getall_inv [OF inv, of k] show ?thesis
      by (simp add: slots_of_def comp_def)
  qed
  with popAll_absent [of s k passed] show ?thesis by blast
qed

theorem popAll_contract_witness:
  "omd_inv (snd (extend empty_omd [(py_int 1, ''a''), (py_int 2, ''b''), (py_int 1, ''c'')])) \<and>
   contains (snd (extend empty_omd [(py_int 1, ''a''), (py_int 2, ''b''), (py_int 1, ''c'')]))
     (py_int 1) \<and>
   fst (popAll (snd (extend empty_omd [(py_int 1, ''a''), (py_int 2, ''b''), (py_int 1, ''c'')]))
          (py_int 1) None) = Inr (PyList [''a'', ''c'']) \<and>
   u_items (snd (popAll
       (snd (extend empty_omd [(py_int 1, ''a''), (py_int 2, ''b''), (py_int 1, ''c'')]))
       (py_int 1) None)) = [(1, (py_int 2, ''b''))] \<and>
   \<not> contains (snd (extend empty_omd [(py_int 1, ''a''), (py_int 2, ''b''), (py_int 1, ''c'')]))
     (py_int 3) \<and>
   popAll (snd (extend empty_omd [(py_int 1, ''a''), (py_int 2, ''b''), (py_int 1, ''c'')]))
     (py_int 3) (Some (PyList [])) =
     (Inr (PyList []),
      snd (extend empty_omd [(py_int 1, ''a''), (py_int 2, ''b''), (py_int 1, ''c'')]))"
proof -
  let ?s = "snd (extend empty_omd [(py_int 1, ''a''), (py_int 2, ''b''), (py_int 1, ''c'')])"
  have i: "omd_inv ?s" by code_simp
  have c: "contains ?s (py_int 1)" by code_simp
  have n: "\<not> contains ?s (py_int 3)" by code_simp
  have v: "map (\<lambda>p. snd (snd p)) (class_of (u_items ?s) (py_int 1)) = [''a'', ''c'']"
    by code_simp
  have f: "filter (\<lambda>p. \<not> PyObjectPtrHashEqual (fst (snd p)) (py_int 1)) (u_items ?s) =
      [(1, (py_int 2, ''b''))]"
    by code_simp
  from popAll_contract [of ?s "py_int 1" None] i c v f
  have 1: "fst (popAll ?s (py_int 1) None) = Inr (PyList [''a'', ''c''])"
    and 2: "u_items (snd (popAll ?s (py_int 1) None)) = [(1, (py_int 2, ''b''))]"
    by simp_all
  from popAll_contract [of ?s "py_int 3" "Some (PyList [])"] n
  have 3: "popAll ?s (py_int 3) (Some (PyList [])) = (Inr (PyList []), ?s)" by simp
  from i c n 1 2 3 show ?thesis by blast
qed

section \<open>The key object that is kept\<close>




section \<open>The bracket operators\<close>

text \<open>
  \<open>m[k] = v\<close> is \<open>setAll(k, [v])\<close>, and \<open>del m[k]\<close> is \<open>popLast(k)\<close> with the value
  dropped. In the key index, a key that held two or more values keeps all but the newest
  after \<open>del m[k]\<close>. In a map whose key index and ledger are in step, as every history
  without \<open>sort\<close> leaves it, \<open>m[k] = v\<close> succeeds, removes every item of \<open>k\<close> from
  the ledger and appends \<open>(k, v)\<close>, so that \<open>v\<close> is the only value of \<open>k\<close>, and
  \<open>del m[k]\<close> removes the newest ledger entry of a key that is present.
\<close>

lemma bracket_operators_in_step:
  "setitem s k v = setAll s k [v] \<and>
   delitem s k =
     (case popLast s k None of (Inl e, s') \<Rightarrow> (Inl e, s') | (Inr x, s') \<Rightarrow> (Inr (), s')) \<and>
   snd (delitem s k) = snd (popLast s k None) \<and>
   (\<forall>vs. getall s k None = Inr vs \<and> 2 \<le> length vs \<longrightarrow>
      contains (snd (delitem s k)) k \<and>
      getall (snd (delitem s k)) k None = Inr (butlast vs)) \<and>
   (omd_inv s \<longrightarrow>
      fst (setitem s k v) = Inr () \<and>
      items (snd (setitem s k v)) =
        filter (\<lambda>kv. \<not> PyObjectPtrHashEqual (fst kv) k) (items s) @ [(k, v)] \<and>
      getall (snd (setitem s k v)) k None = Inr [v] \<and>
      (contains s k \<longrightarrow>
         fst (delitem s k) = Inr () \<and>
         u_items (snd (delitem s k)) =
           od_remove (u_items s) (fst (last (class_of (u_items s) k)))))"
proof -
  have 0: "delitem s k =
     (case popLast s k None of (Inl e, s') \<Rightarrow> (Inl e, s') | (Inr x, s') \<Rightarrow> (Inr (), s'))"
    by (simp add: delitem_def pop_def)
  have 1: "fst (setitem s k v) = Inr () \<and>
      items (snd (setitem s k v)) =
        filter (\<lambda>kv. \<not> PyObjectPtrHashEqual (fst kv) k) (items s) @ [(k, v)] \<and>
      getall (snd (setitem s k v)) k None = Inr [v] \<and>
      (contains s k \<longrightarrow>
         fst (delitem s k) = Inr () \<and>
         u_items (snd (delitem s k)) =
           od_remove (u_items s) (fst (last (class_of (u_items s) k))))" if inv: "omd_inv s"
  proof -
    note sa = setAll_single_inv [OF inv, of k v]
    have a: "items (snd (setitem s k v)) =
           filter (\<lambda>kv. \<not> PyObjectPtrHashEqual (fst kv) k) (items s) @ [(k, v)]"
      by (simp add: setitem_def sa(2) items_def od_values_def filter_map comp_def)
    have b: "getall (snd (setitem s k v)) k None = Inr [v]"
      by (simp add: setitem_def getall_inv [OF sa(3)] sa(2) class_of_append class_of_without)
    have c: "fst (delitem s k) = Inr () \<and>
         u_items (snd (delitem s k)) =
           od_remove (u_items s) (fst (last (class_of (u_items s) k)))" if "contains s k"
    proof -
      from that have "class_of (u_items s) k \<noteq> []" by (simp add: contains_inv [OF inv])
      from popLast_inv(1,2) [OF inv this, of None] show ?thesis
        by (cases "popLast s k None") (simp add: delitem_def pop_def)
    qed
    from a b c sa(1) show ?thesis by (simp add: setitem_def)
  qed
  from 0 1 popLast_keeps_older [of s k] delitem_popLast [of s k] show ?thesis
    by (simp add: setitem_def)
qed

lemma bracket_operators_in_step_example:
  "omd_inv (snd (extend empty_omd [(py_int 1, ''a''), (py_int 2, ''b''), (py_int 1, ''c'')])) \<and>
   getall (snd (extend empty_omd [(py_int 1, ''a''), (py_int 2, ''b''), (py_int 1, ''c'')]))
     (py_int 1) None = Inr [''a'', ''c''] \<and>
   (2::nat) \<le> length [''a'', ''c''] \<and>
   contains (snd (delitem
     (snd (extend empty_omd [(py_int 1, ''a''), (py_int 2, ''b''), (py_int 1, ''c'')]))
     (py_int 1))) (py_int 1) \<and>
   getall (snd (delitem
     (snd (extend empty_omd [(py_int 1, ''a''), (py_int 2, ''b''), (py_int 1, ''c'')]))
     (py_int 1))) (py_int 1) None = Inr (butlast [''a'', ''c'']) \<and>
   getall (snd (setitem
     (snd (extend empty_omd [(py_int 1, ''a''), (py_int 2, ''b''), (py_int 1, ''c'')]))
     (py_int 1) ''d'')) (py_int 1) None = Inr [''d'']"
proof -
  let ?s = "snd (extend empty_omd [(py_int 1, ''a''), (py_int 2, ''b''), (py_int 1, ''c'')])"
  have i: "omd_inv ?s" by code_simp
  have g: "getall ?s (py_int 1) None = Inr [''a'', ''c'']" by code_simp
  have l: "(2::nat) \<le> length [''a'', ''c'']" by simp
  from bracket_operators_in_step [of ?s "py_int 1" "''d''"] i g l show ?thesis by blast
qed

section \<open>sort leaves the key index behind\<close>

text \<open>
  Claim C1. The claim is that every public mutation, \<open>sort\<close> among them, keeps the
  dual-index invariant. \<open>sort\<close> assigns \<open>_items\<close> only: after \<open>add(1, 'b')\<close>,
  \<open>add(2, 'a')\<close> and \<open>sort(key=lambda kv: kv[1])\<close> the key index still lists slot 0
  under key 1, and the ledger holds \<open>(2, 'a')\<close> there.
\<close>

theorem sort_breaks_dual_index:
  "run [Add (py_int 1) ''b'', Add (py_int 2) ''a'', Sort snd False] =
     \<lparr>u_items = [(0, (py_int 2, ''a'')), (1, (py_int 1, ''b''))],
      u_map = [(py_int 1, [(0, ''b'')]), (py_int 2, [(1, ''a'')])],
      u_index = 2\<rparr> \<and>
   \<not> dual_index_inv (run [Add (py_int 1) ''b'', Add (py_int 2) ''a'', Sort snd False])"
  by code_simp

text \<open>
  Claim C2. On a map loaded from \<open>[(1,'b'), (2,'a'), (3,'a')]\<close>,
  \<open>sort(key=lambda kv: kv[1])\<close> leaves the items \<open>(2,'a'), (3,'a'), (1,'b')\<close> under the
  slot ids 0, 1, 2, as claimed; the key index is not rebuilt: it is the one from before the
  call, and it does not agree with the new slot ids.
\<close>

theorem sort_keeps_old_key_index:
  "sort_omd snd False
     (snd (load empty_omd [(py_int 1, ''b''), (py_int 2, ''a''), (py_int 3, ''a'')])) =
     \<lparr>u_items = [(0, (py_int 2, ''a'')), (1, (py_int 3, ''a'')), (2, (py_int 1, ''b''))],
      u_map = [(py_int 1, [(0, ''b'')]), (py_int 2, [(1, ''a'')]), (py_int 3, [(2, ''a'')])],
      u_index = 3\<rparr> \<and>
   u_map (sort_omd snd False
     (snd (load empty_omd [(py_int 1, ''b''), (py_int 2, ''a''), (py_int 3, ''a'')]))) =
   u_map (snd (load empty_omd [(py_int 1, ''b''), (py_int 2, ''a''), (py_int 3, ''a'')])) \<and>
   \<not> dual_index_inv (sort_omd snd False
     (snd (load empty_omd [(py_int 1, ''b''), (py_int 2, ''a''), (py_int 3, ''a'')])))"
  by code_simp

text \<open>
  Claim C5. The claim is that in every reachable state a key of the key index has a
  non-empty deque, and that a pop that takes a key's last value purges the key. After
  \<open>add(1, 'a')\<close>, \<open>add(2, 'b')\<close>, \<open>popFirst(1)\<close> and \<open>sort\<close>, the key index lists
  slot 1 under key 2 while the ledger holds that item under slot 0; \<open>popFirst(2)\<close> empties
  the deque, raises \<open>KeyError\<close> at the ledger and returns before the purge, so key 2 stays
  in the map with no value.
\<close>

theorem popFirst_after_sort_leaves_empty_deque:
  "popFirst
     (run [Add (py_int 1) ''a'', Add (py_int 2) ''b'', PopFirst (py_int 1) None, Sort snd False])
     (py_int 2) None =
     (Inl KeyError,
      \<lparr>u_items = [(0, (py_int 2, ''b''))], u_map = [(py_int 2, [])], u_index = 2\<rparr>) \<and>
   contains
     (run [Add (py_int 1) ''a'', Add (py_int 2) ''b'', PopFirst (py_int 1) None, Sort snd False,
           PopFirst (py_int 2) None])
     (py_int 2) \<and>
   \<not> nonempty_inv
     (run [Add (py_int 1) ''a'', Add (py_int 2) ''b'', PopFirst (py_int 1) None, Sort snd False,
           PopFirst (py_int 2) None])"
  by code_simp

text \<open>
  Claim C7. The claim is that \<open>load(M.items()) == M\<close> for every map \<open>M\<close> that any
  sequence of operations builds. With the keys \<open>-1\<close> and \<open>-2\<close>, of equal hash:
  \<open>add(-1, 2)\<close>, \<open>add(7, 1)\<close>, \<open>sort(key=lambda kv: kv[1])\<close>, \<open>popFirst(-1)\<close>, which
  deletes the ledger entry of key 7 and purges \<open>-1\<close> from the key index, and
  \<open>add(-2, 3)\<close> leave the items \<open>(-1, 2), (-2, 3)\<close>. Loading them into a fresh map
  stores \<open>(-1, 2), (-1, 3)\<close>, and the two maps are not equal.
\<close>

theorem load_items_differs_after_sort:
  "items (run [Add (py_int (- 1)) (2::nat), Add (py_int 7) 1, Sort snd False,
               PopFirst (py_int (- 1)) None, Add (py_int (- 2)) 3]) =
     [(py_int (- 1), 2), (py_int (- 2), 3)] \<and>
   load empty_omd [(py_int (- 1), 2::nat), (py_int (- 2), 3)] =
     (Inr (),
      \<lparr>u_items = [(0, (py_int (- 1), 2)), (1, (py_int (- 1), 3))],
       u_map = [(py_int (- 1), [(0, 2), (1, 3)])], u_index = 2\<rparr>) \<and>
   \<not> omd_eq
     (snd (load empty_omd
        (items (run [Add (py_int (- 1)) (2::nat), Add (py_int 7) 1, Sort snd False,
                     PopFirst (py_int (- 1)) None, Add (py_int (- 2)) 3]))))
     (run [Add (py_int (- 1)) (2::nat), Add (py_int 7) 1, Sort snd False,
           PopFirst (py_int (- 1)) None, Add (py_int (- 2)) 3])"
  by code_simp

text \<open>
  Claim C10. The claim is that, for every map, \<open>m[k] = v\<close> replaces all values of \<open>k\<close>
  with \<open>v\<close> and \<open>del m[k]\<close> removes only the newest entry of \<open>k\<close>. After
  \<open>add(1, 'b')\<close>, \<open>add(2, 'a')\<close> and \<open>sort(key=lambda kv: kv[1])\<close> the key index
  lists slot 0 under key 1, where the ledger now holds \<open>(2, 'a')\<close>. On that map
  \<open>m[1] = 'z'\<close> deletes the item of key 2 and appends \<open>(1, 'z')\<close>: the items are
  \<open>(1, 'b'), (1, 'z')\<close>, the old value of key 1 is still there, and key 2 is still in the
  map without an item. On the same map \<open>del m[1]\<close> deletes the item of key 2 as well and
  purges key 1, whose item \<open>(1, 'b')\<close> stays in the ledger.
\<close>

theorem bracket_operators_after_sort:
  "setitem (run [Add (py_int 1) ''b'', Add (py_int 2) ''a'', Sort snd False]) (py_int 1) ''z'' =
     (Inr (),
      \<lparr>u_items = [(1, (py_int 1, ''b'')), (2, (py_int 1, ''z''))],
       u_map = [(py_int 2, [(1, ''a'')]), (py_int 1, [(2, ''z'')])],
       u_index = 3\<rparr>) \<and>
   items (snd (setitem (run [Add (py_int 1) ''b'', Add (py_int 2) ''a'', Sort snd False])
                 (py_int 1) ''z'')) =
     [(py_int 1, ''b''), (py_int 1, ''z'')] \<and>
   contains (snd (setitem (run [Add (py_int 1) ''b'', Add (py_int 2) ''a'', Sort snd False])
                    (py_int 1) ''z'')) (py_int 2) \<and>
   delitem (run [Add (py_int 1) ''b'', Add (py_int 2) ''a'', Sort snd False]) (py_int 1) =
     (Inr (),
      \<lparr>u_items = [(1, (py_int 1, ''b''))], u_map = [(py_int 2, [(1, ''a'')])],
       u_index = 2\<rparr>) \<and>
   items (snd (delitem (run [Add (py_int 1) ''b'', Add (py_int 2) ''a'', Sort snd False])
                 (py_int 1))) =
     [(py_int 1, ''b'')] \<and>
   \<not> contains (snd (delitem (run [Add (py_int 1) ''b'', Add (py_int 2) ''a'', Sort snd False])
                      (py_int 1))) (py_int 1)"
  by code_simp

end
